theory Spec2Isabelle
  imports Complex_Main
begin

section \<open>Python values\<close>

text \<open>
  The processors of \<^verbatim>\<open>scrapy/contrib/loader/processor.py\<close> are duck-typed: they
  receive and return arbitrary Python objects. The values the processors are documented
  on are modelled by one datatype: \<^verbatim>\<open>None\<close>, booleans, integers, floats (by the
  real number they denote; only the comparison with zero is ever made on them), strings,
  lists and tuples.
\<close>

datatype pyval =
    PNone
  | PBool bool
  | PInt int
  | PFloat real
  | PStr string
  | PList "pyval list"
  | PTuple "pyval list"

text \<open>
  An exception is a value: \<open>TypeError\<close> is what Python raises when a value that is not
  iterable is iterated or a value that is not a sequence is sliced; \<open>Raised msg\<close> is an
  exception raised by a function the caller supplied.
\<close>

datatype error = TypeError | Raised string

text \<open>Python's \<^verbatim>\<open>bool(v)\<close>: the truth value of an object.\<close>

fun truthy :: "pyval \<Rightarrow> bool" where
  "truthy PNone = False"
| "truthy (PBool b) = b"
| "truthy (PInt i) = (i \<noteq> 0)"
| "truthy (PFloat r) = (r \<noteq> 0)"
| "truthy (PStr s) = (s \<noteq> [])"
| "truthy (PList xs) = (xs \<noteq> [])"
| "truthy (PTuple xs) = (xs \<noteq> [])"

text \<open>
  Python's iteration protocol on the modelled values (\<^verbatim>\<open>for v in values\<close>,
  \<^verbatim>\<open>filter(f, values)\<close>): a list or a tuple yields its elements, a string its
  one-character strings, anything else raises \<^verbatim>\<open>TypeError\<close> (\<open>None\<close> here).
\<close>

fun py_iter :: "pyval \<Rightarrow> pyval list option" where
  "py_iter (PList xs) = Some xs"
| "py_iter (PTuple xs) = Some xs"
| "py_iter (PStr s) = Some (map (\<lambda>c. PStr [c]) s)"
| "py_iter PNone = None"
| "py_iter (PBool b) = None"
| "py_iter (PInt i) = None"
| "py_iter (PFloat r) = None"

text \<open>
  A function supplied to \<^verbatim>\<open>Filter\<close> or \<^verbatim>\<open>TakeFirst\<close>: a pure function of one
  value that returns a value or raises.
\<close>

type_synonym pyfun = "pyval \<Rightarrow> error + pyval"

section \<open>Primitive processors\<close>

subsection \<open>The default predicate\<close>

text \<open>
  \<^verbatim>\<open>lambda v: v is not None and v != ''\<close>, the default of the \<^verbatim>\<open>function\<close>
  parameter of \<^verbatim>\<open>Filter.__init__\<close> and \<^verbatim>\<open>TakeFirst.__init__\<close>.
\<close>

definition default_function :: pyfun where
  "default_function v = Inr (PBool (v \<noteq> PNone \<and> v \<noteq> PStr []))"

subsection \<open>Filter\<close>

text \<open>
  \<^verbatim>\<open>Filter.__init__(self, function=...)\<close> stores its argument unchanged, so the
  field is \<open>None\<close> when the caller passes \<^verbatim>\<open>None\<close>. \<^verbatim>\<open>Filter()\<close> is
  \<open>Filter_init (Some default_function)\<close>.
\<close>

definition Filter_init :: "pyfun option \<Rightarrow> pyfun option" where
  "Filter_init function = function"

text \<open>
  Python's builtin \<^verbatim>\<open>filter(function, values)\<close> on the elements: with
  \<^verbatim>\<open>None\<close> as the function it keeps the elements that are true; otherwise it keeps
  the elements on which the function returns a true value, and an exception of the
  function ends the scan.
\<close>

fun py_filter :: "pyfun option \<Rightarrow> pyval list \<Rightarrow> error + pyval list" where
  "py_filter None xs = Inr (filter truthy xs)"
| "py_filter (Some f) [] = Inr []"
| "py_filter (Some f) (x # xs) =
     (case f x of
        Inl e \<Rightarrow> Inl e
      | Inr b \<Rightarrow>
          (case py_filter (Some f) xs of
             Inl e \<Rightarrow> Inl e
           | Inr ys \<Rightarrow> Inr (if truthy b then x # ys else ys)))"

text \<open>\<^verbatim>\<open>Filter.__call__\<close>: \<^verbatim>\<open>return tuple(filter(self.function, values))\<close>.\<close>

definition Filter_call :: "pyfun option \<Rightarrow> pyval \<Rightarrow> error + pyval" where
  "Filter_call function values =
     (case py_iter values of
        None \<Rightarrow> Inl TypeError
      | Some xs \<Rightarrow>
          (case py_filter function xs of
             Inl e \<Rightarrow> Inl e
           | Inr ys \<Rightarrow> Inr (PTuple ys)))"

subsection \<open>Slice\<close>

text \<open>
  Python's adjustment of one bound of a slice with step 1 over a sequence of length
  \<open>n\<close>: \<^verbatim>\<open>None\<close> is the default \<open>d\<close>, a negative index counts from the end, and
  the result is clamped to \<open>0..n\<close>.
\<close>

definition slice_index :: "nat \<Rightarrow> int option \<Rightarrow> nat \<Rightarrow> nat" where
  "slice_index n idx d =
     (case idx of
        None \<Rightarrow> d
      | Some i \<Rightarrow> if i < 0 then nat (max (i + int n) 0) else min (nat i) n)"

definition py_slice :: "int option \<Rightarrow> int option \<Rightarrow> 'a list \<Rightarrow> 'a list" where
  "py_slice b e xs =
     (let n = length xs; start = slice_index n b 0; stop = slice_index n e n
      in take (stop - start) (drop start xs))"

text \<open>
  \<^verbatim>\<open>Slice.__call__\<close>: \<^verbatim>\<open>return values[self.begin:self.end]\<close>. A list, a tuple
  and a string are sliced to a value of the same type; the other values have no
  \<^verbatim>\<open>__getitem__\<close>.
\<close>

fun Slice_call :: "int option \<Rightarrow> int option \<Rightarrow> pyval \<Rightarrow> error + pyval" where
  "Slice_call b e (PList xs) = Inr (PList (py_slice b e xs))"
| "Slice_call b e (PTuple xs) = Inr (PTuple (py_slice b e xs))"
| "Slice_call b e (PStr s) = Inr (PStr (py_slice b e s))"
| "Slice_call b e PNone = Inl TypeError"
| "Slice_call b e (PBool x) = Inl TypeError"
| "Slice_call b e (PInt i) = Inl TypeError"
| "Slice_call b e (PFloat r) = Inl TypeError"

subsection \<open>TakeFirst\<close>

text \<open>
  \<^verbatim>\<open>TakeFirst.__init__\<close>: \<^verbatim>\<open>self.function = bool if function is None else function\<close>.
  \<^verbatim>\<open>TakeFirst()\<close> is \<open>TakeFirst_init (Some default_function)\<close>.
\<close>

definition py_bool :: pyfun where
  "py_bool v = Inr (PBool (truthy v))"

definition TakeFirst_init :: "pyfun option \<Rightarrow> pyfun" where
  "TakeFirst_init function = (case function of None \<Rightarrow> py_bool | Some f \<Rightarrow> f)"

text \<open>
  The loop of \<^verbatim>\<open>TakeFirst.__call__\<close>: the first value on which the function is
  true is returned; falling off the end of the loop returns \<^verbatim>\<open>None\<close>.
\<close>

fun take_first :: "pyfun \<Rightarrow> pyval list \<Rightarrow> error + pyval" where
  "take_first f [] = Inr PNone"
| "take_first f (v # vs) =
     (case f v of
        Inl e \<Rightarrow> Inl e
      | Inr b \<Rightarrow> if truthy b then Inr v else take_first f vs)"

definition TakeFirst_call :: "pyfun \<Rightarrow> pyval \<Rightarrow> error + pyval" where
  "TakeFirst_call function values =
     (case py_iter values of
        None \<Rightarrow> Inl TypeError
      | Some xs \<Rightarrow> take_first function xs)"

subsection \<open>Identity\<close>

definition Identity_call :: "pyval \<Rightarrow> pyval" where
  "Identity_call values = values"

section \<open>Loader contexts\<close>

text \<open>
  A context is a Python mapping from names to values. A \<^verbatim>\<open>dict\<close> (the keyword
  arguments of a constructor, the runtime context of a call) is an association list of
  its items.
\<close>

type_synonym dict = "(string \<times> pyval) list"

text \<open>
  Modelled from the spec: \<^verbatim>\<open>scrapy.utils.datatypes.MergeDict\<close> is imported by the
  module and its source is not part of it. The specification describes the context as
  "assembled by merging (a) a runtime-supplied context and (b) a processor's own default
  named parameters, with (a) taking precedence on key collision": \<open>MergeDict ds\<close> is the
  merge of the dicts \<open>ds\<close>, in which an earlier dict wins.
\<close>

datatype pycontext = Dict dict | MergeDict "dict list"

fun merge_get :: "dict list \<Rightarrow> string \<Rightarrow> pyval option" where
  "merge_get [] k = None"
| "merge_get (d # ds) k =
     (case map_of d k of Some v \<Rightarrow> Some v | None \<Rightarrow> merge_get ds k)"

fun context_get :: "pycontext \<Rightarrow> string \<Rightarrow> pyval option" where
  "context_get (Dict d) k = map_of d k"
| "context_get (MergeDict ds) k = merge_get ds k"

text \<open>\<^verbatim>\<open>d.get(k, default)\<close> on a dict.\<close>

definition dict_get :: "dict \<Rightarrow> string \<Rightarrow> pyval \<Rightarrow> pyval" where
  "dict_get d k dflt = (case map_of d k of Some v \<Rightarrow> v | None \<Rightarrow> dflt)"

section \<open>Functions of a pipeline and their invocations\<close>

text \<open>
  A function handed to \<^verbatim>\<open>Compose\<close> or \<^verbatim>\<open>MapCompose\<close>: whether its signature
  declares a parameter named \<^verbatim>\<open>loader_context\<close>, and what it computes from the value
  and from the context it is called with (\<open>None\<close> when it is called with the value
  only). It returns a value or raises.
\<close>

record pyfunc =
  takes_context :: bool
  body :: "pyval \<Rightarrow> pycontext option \<Rightarrow> error + pyval"

text \<open>
  Modelled from the spec: \<^verbatim>\<open>wrap_loader_context\<close> is imported from the sibling
  module \<^verbatim>\<open>.common\<close>, whose source is not part of this module. By the specification
  (4.1), for a function \<open>f\<close> that declares a formal parameter named
  \<^verbatim>\<open>loader_context\<close> the wrapper \<open>g\<close> satisfies
  \<^verbatim>\<open>g(value) == f(value, loader_context=ctx)\<close>, and otherwise
  \<^verbatim>\<open>g(value) == f(value)\<close>.
\<close>

datatype wrapped = Plain pyfunc | Partial pyfunc pycontext

definition wrap_loader_context :: "pyfunc \<Rightarrow> pycontext \<Rightarrow> wrapped" where
  "wrap_loader_context f ctx = (if takes_context f then Partial f ctx else Plain f)"

text \<open>
  An invocation of a supplied function is the one effect of a pipeline that its caller
  can observe. It is recorded as the function, the value and the context it was called
  with; a call of a pipeline returns its outcome together with the invocations it made,
  in the order it made them.
\<close>

type_synonym invocation = "pyfunc \<times> pyval \<times> pycontext option"

fun invocation_of :: "wrapped \<Rightarrow> pyval \<Rightarrow> invocation" where
  "invocation_of (Plain f) v = (f, v, None)"
| "invocation_of (Partial f ctx) v = (f, v, Some ctx)"

fun outcome :: "invocation \<Rightarrow> error + pyval" where
  "outcome (f, v, c) = body f v c"

section \<open>Compositional processors\<close>

text \<open>
  Both constructors store the functions (\<^verbatim>\<open>self.functions\<close>, the field \<open>funcs\<close>)
  and the keyword arguments; \<^verbatim>\<open>Compose.__init__\<close> also stores
  \<^verbatim>\<open>default_loader_context.get('stop_on_none', True)\<close>.
\<close>

record MapCompose =
  funcs :: "pyfunc list"
  default_loader_context :: dict

record Compose = MapCompose +
  stop_on_none :: pyval

definition MapCompose_init :: "pyfunc list \<Rightarrow> dict \<Rightarrow> MapCompose" where
  "MapCompose_init fs kwargs = \<lparr>funcs = fs, default_loader_context = kwargs\<rparr>"

definition Compose_init :: "pyfunc list \<Rightarrow> dict \<Rightarrow> Compose" where
  "Compose_init fs kwargs =
     \<lparr>funcs = fs, default_loader_context = kwargs,
      stop_on_none = dict_get kwargs ''stop_on_none'' (PBool True)\<rparr>"

text \<open>
  The first statement of both \<^verbatim>\<open>__call__\<close> methods, which chooses the context
  the functions are wrapped with:
  \<^verbatim>\<open>if loader_context: context = MergeDict(loader_context, self.default_loader_context)\<close>,
  \<^verbatim>\<open>else: context = self.default_loader_context\<close>. The argument is false when it
  is \<^verbatim>\<open>None\<close> (also the parameter's default) and when it is an empty dict.
\<close>

fun call_context :: "dict option \<Rightarrow> dict \<Rightarrow> pycontext" where
  "call_context None dflt = Dict dflt"
| "call_context (Some d) dflt = (if d \<noteq> [] then MergeDict [d, dflt] else Dict dflt)"

subsection \<open>Compose\<close>

text \<open>
  The loop of \<^verbatim>\<open>Compose.__call__\<close> over the wrapped functions:
  \<^verbatim>\<open>if value is None and self.stop_on_none: break\<close>, then
  \<^verbatim>\<open>value = func(value)\<close>. An exception of \<open>func\<close> leaves the loop and the call.
\<close>

fun compose_loop :: "pyval \<Rightarrow> wrapped list \<Rightarrow> pyval \<Rightarrow> (error + pyval) \<times> invocation list" where
  "compose_loop stop [] v = (Inr v, [])"
| "compose_loop stop (func # rest) v =
     (if v = PNone \<and> truthy stop then (Inr v, [])
      else
        (let c = invocation_of func v in
         case outcome c of
           Inl e \<Rightarrow> (Inl e, [c])
         | Inr v' \<Rightarrow> (case compose_loop stop rest v' of (r, cs) \<Rightarrow> (r, c # cs))))"

definition Compose_call ::
  "Compose \<Rightarrow> pyval \<Rightarrow> dict option \<Rightarrow> (error + pyval) \<times> invocation list" where
  "Compose_call self v loader_context =
     (let ctx = call_context loader_context (default_loader_context self);
          wrapped_funcs = map (\<lambda>f. wrap_loader_context f ctx) (funcs self)
      in compose_loop (stop_on_none self) wrapped_funcs v)"

subsection \<open>MapCompose\<close>

text \<open>
  Modelled from the spec: \<^verbatim>\<open>scrapy.utils.misc.arg_to_iter\<close> is imported by the
  module and its source is not part of it. By the specification (4.3), "a scalar becomes
  a single-element sequence, \<^verbatim>\<open>None\<close>/absent values become an empty sequence, an
  existing sequence/iterable passes through as-is". A string is a scalar: the module
  exists to normalise extracted strings one by one.
\<close>

fun arg_to_iter :: "pyval \<Rightarrow> pyval" where
  "arg_to_iter PNone = PList []"
| "arg_to_iter (PList xs) = PList xs"
| "arg_to_iter (PTuple xs) = PTuple xs"
| "arg_to_iter (PBool b) = PList [PBool b]"
| "arg_to_iter (PInt i) = PList [PInt i]"
| "arg_to_iter (PFloat r) = PList [PFloat r]"
| "arg_to_iter (PStr s) = PList [PStr s]"

text \<open>
  The inner loop of \<^verbatim>\<open>MapCompose.__call__\<close>:
  \<^verbatim>\<open>for v in values: next_values += arg_to_iter(func(v))\<close>, from the elements still
  to visit and the \<^verbatim>\<open>next_values\<close> built so far. \<^verbatim>\<open>+=\<close> on a list iterates its
  right operand.
\<close>

fun map_stage ::
  "wrapped \<Rightarrow> pyval list \<Rightarrow> pyval list \<Rightarrow> (error + pyval list) \<times> invocation list" where
  "map_stage func [] next_values = (Inr next_values, [])"
| "map_stage func (v # vs) next_values =
     (let c = invocation_of func v in
      case outcome c of
        Inl e \<Rightarrow> (Inl e, [c])
      | Inr r \<Rightarrow>
          (case py_iter (arg_to_iter r) of
             None \<Rightarrow> (Inl TypeError, [c])
           | Some ys \<Rightarrow>
               (case map_stage func vs (next_values @ ys) of
                  (res, cs) \<Rightarrow> (res, c # cs))))"

text \<open>
  The outer loop, \<^verbatim>\<open>for func in wrapped_funcs\<close>, from the current \<^verbatim>\<open>values\<close>;
  each stage starts from \<^verbatim>\<open>next_values = []\<close> and its result is a list.
\<close>

fun map_stages :: "wrapped list \<Rightarrow> pyval \<Rightarrow> (error + pyval) \<times> invocation list" where
  "map_stages [] vals = (Inr vals, [])"
| "map_stages (func # rest) vals =
     (case py_iter vals of
        None \<Rightarrow> (Inl TypeError, [])
      | Some xs \<Rightarrow>
          (case map_stage func xs [] of
             (Inl e, cs) \<Rightarrow> (Inl e, cs)
           | (Inr next_values, cs) \<Rightarrow>
               (case map_stages rest (PList next_values) of
                  (r, cs') \<Rightarrow> (r, cs @ cs'))))"

definition MapCompose_call ::
  "MapCompose \<Rightarrow> pyval \<Rightarrow> dict option \<Rightarrow> (error + pyval) \<times> invocation list" where
  "MapCompose_call self v loader_context =
     (let vals = arg_to_iter v;
          ctx = call_context loader_context (default_loader_context self);
          wrapped_funcs = map (\<lambda>f. wrap_loader_context f ctx) (funcs self)
      in map_stages wrapped_funcs vals)"

section \<open>Notions the properties are stated with\<close>

text \<open>
  Whether a predicate holds of a value: it returns, and what it returns is true.
\<close>

definition holds :: "pyfun \<Rightarrow> pyval \<Rightarrow> bool" where
  "holds f v = (case f v of Inl e \<Rightarrow> False | Inr b \<Rightarrow> truthy b)"

text \<open>The first element with a property, \<^verbatim>\<open>None\<close> when there is none.\<close>

definition first_or_None :: "(pyval \<Rightarrow> bool) \<Rightarrow> pyval list \<Rightarrow> pyval" where
  "first_or_None P xs = (case find P xs of None \<Rightarrow> PNone | Some x \<Rightarrow> x)"

text \<open>
  The context argument a function of a pipeline is called with when the pipeline wraps
  it with \<open>ctx\<close>: the context if it declares the parameter, none otherwise.
\<close>

definition passed_context :: "pyfunc \<Rightarrow> pycontext \<Rightarrow> pycontext option" where
  "passed_context f ctx = (if takes_context f then Some ctx else None)"

subsection \<open>Sequence coercion and flatten-map, as the specification words them\<close>

text \<open>
  A scalar: a value that is neither \<^verbatim>\<open>None\<close> nor a sequence.
\<close>

fun scalar :: "pyval \<Rightarrow> bool" where
  "scalar PNone = False"
| "scalar (PList xs) = False"
| "scalar (PTuple xs) = False"
| "scalar (PBool b) = True"
| "scalar (PInt i) = True"
| "scalar (PFloat r) = True"
| "scalar (PStr s) = True"

text \<open>
  The elements of the sequence a value is coerced to: none for \<^verbatim>\<open>None\<close>, the
  value itself for a scalar, the elements of a sequence.
\<close>

fun coerce :: "pyval \<Rightarrow> pyval list" where
  "coerce PNone = []"
| "coerce (PList xs) = xs"
| "coerce (PTuple xs) = xs"
| "coerce (PBool b) = [PBool b]"
| "coerce (PInt i) = [PInt i]"
| "coerce (PFloat r) = [PFloat r]"
| "coerce (PStr s) = [PStr s]"

text \<open>
  One stage of the specification: the function is applied to every element, each result
  is coerced, and the coerced results are concatenated in element order. The stage
  raises what the first application that raises does.
\<close>

fun flat_map :: "wrapped \<Rightarrow> pyval list \<Rightarrow> error + pyval list" where
  "flat_map w [] = Inr []"
| "flat_map w (x # xs) =
     (case outcome (invocation_of w x) of
        Inl e \<Rightarrow> Inl e
      | Inr y \<Rightarrow> (case flat_map w xs of Inl e \<Rightarrow> Inl e | Inr ys \<Rightarrow> Inr (coerce y @ ys)))"

text \<open>The stages in order: the result of one is the working sequence of the next.\<close>

fun flat_map_stages :: "wrapped list \<Rightarrow> pyval list \<Rightarrow> error + pyval list" where
  "flat_map_stages [] xs = Inr xs"
| "flat_map_stages (w # ws) xs =
     (case flat_map w xs of Inl e \<Rightarrow> Inl e | Inr ys \<Rightarrow> flat_map_stages ws ys)"

text \<open>
  The invocations of the stages: each stage invokes its function on every element of its
  working sequence, in element order, before the next stage starts.
\<close>

fun stage_invocations :: "wrapped list \<Rightarrow> pyval list \<Rightarrow> invocation list" where
  "stage_invocations [] xs = []"
| "stage_invocations (w # ws) xs =
     map (invocation_of w) xs
     @ (case flat_map w xs of Inl e \<Rightarrow> [] | Inr ys \<Rightarrow> stage_invocations ws ys)"

text \<open>
  The invocations of one stage: its function is invoked on the elements in order, up to
  and including the first invocation that raises.
\<close>

fun stage_calls :: "wrapped \<Rightarrow> pyval list \<Rightarrow> invocation list" where
  "stage_calls w [] = []"
| "stage_calls w (x # xs) =
     (case outcome (invocation_of w x) of
        Inl e \<Rightarrow> [invocation_of w x]
      | Inr y \<Rightarrow> invocation_of w x # stage_calls w xs)"

subsection \<open>Example inputs\<close>

text \<open>
  The list of the docstrings of \<^verbatim>\<open>Filter\<close>, \<^verbatim>\<open>['A', 0, '', 0.0, None, -1]\<close>, and
  the predicate \<^verbatim>\<open>lambda v: v is not None\<close>.
\<close>

definition docstring_values :: pyval where
  "docstring_values = PList [PStr ''A'', PInt 0, PStr [], PFloat 0, PNone, PInt (- 1)]"

definition is_not_None :: pyfun where
  "is_not_None v = Inr (PBool (v \<noteq> PNone))"

text \<open>
  Four functions for a pipeline: \<^verbatim>\<open>lambda v: [v]\<close>; \<^verbatim>\<open>lambda v: (v, v)\<close>; a
  function that raises; and a context-aware function,
  \<^verbatim>\<open>lambda v, loader_context: loader_context.get('unit')\<close>.
\<close>

definition in_list :: pyfunc where
  "in_list = \<lparr>takes_context = False, body = (\<lambda>v c. Inr (PList [v]))\<rparr>"

definition twice :: pyfunc where
  "twice = \<lparr>takes_context = False, body = (\<lambda>v c. Inr (PTuple [v, v]))\<rparr>"

definition failing :: pyfunc where
  "failing = \<lparr>takes_context = False, body = (\<lambda>v c. Inl (Raised ''boom''))\<rparr>"

definition get_unit :: pyfunc where
  "get_unit =
     \<lparr>takes_context = True,
      body = (\<lambda>v c. case c of
                None \<Rightarrow> Inl TypeError
              | Some ctx \<Rightarrow>
                  Inr (case context_get ctx ''unit'' of None \<Rightarrow> PNone | Some u \<Rightarrow> u))\<rparr>"

text \<open>
  A context-aware function that returns the \<^verbatim>\<open>stop_on_none\<close> entry of its context,
  \<^verbatim>\<open>lambda v, loader_context: loader_context['stop_on_none']\<close>.
\<close>

definition get_stop_on_none :: pyfunc where
  "get_stop_on_none =
     \<lparr>takes_context = True,
      body = (\<lambda>v c. case c of
                None \<Rightarrow> Inl TypeError
              | Some ctx \<Rightarrow>
                  (case context_get ctx ''stop_on_none'' of
                     None \<Rightarrow> Inl (Raised ''KeyError'')
                   | Some u \<Rightarrow> Inr u))\<rparr>"

subsection \<open>Invocations and exceptions\<close>

text \<open>An invocation returned: the function did not raise.\<close>

definition returned :: "invocation \<Rightarrow> bool" where
  "returned c = (\<not> isl (outcome c))"

text \<open>The exception a call ended with, if it ended with one.\<close>

definition raised :: "error + 'a \<Rightarrow> error option" where
  "raised res = (case res of Inl e \<Rightarrow> Some e | Inr x \<Rightarrow> None)"

text \<open>
  A call that ended with \<open>r\<close> after the invocations \<open>cs\<close> is faithful to the functions
  it invoked: every invocation but the last returned, and the last one raised exactly
  the exception the call ended with, or returned when the call returned.
\<close>

fun faithful :: "error option \<Rightarrow> invocation list \<Rightarrow> bool" where
  "faithful r [] = (r = None)"
| "faithful r [c] = (case r of Some e \<Rightarrow> outcome c = Inl e | None \<Rightarrow> returned c)"
| "faithful r (c # c' # cs) = (returned c \<and> faithful r (c' # cs))"

text \<open>
  An invocation by a pipeline with the functions \<open>fs\<close> that wrapped them with \<open>ctx\<close>:
  it is of one of the functions, with the context argument that function takes.
\<close>

definition called_with :: "pyfunc list \<Rightarrow> pycontext \<Rightarrow> invocation \<Rightarrow> bool" where
  "called_with fs ctx c = (fst c \<in> set fs \<and> snd (snd c) = passed_context (fst c) ctx)"

section \<open>Filter, Slice, TakeFirst and Identity\<close>

lemma py_filter_idem: "py_filter p xs = Inr ys \<Longrightarrow> py_filter p ys = Inr ys"
proof (cases p)
  case None
  assume "py_filter p xs = Inr ys"
  with None show ?thesis by auto
next
  case (Some f)
  assume "py_filter p xs = Inr ys"
  then show ?thesis
    unfolding Some
  proof (induction xs arbitrary: ys)
    case Nil
    then show ?case by simp
  next
    case (Cons x xs)
    then show ?case by (auto split: sum.splits if_splits)
  qed
qed

lemma py_filter_total:
  "list_all (\<lambda>x. \<not> isl (f x)) xs \<Longrightarrow> \<not> isl (py_filter (Some f) xs)"
  by (induction xs) (auto split: sum.splits)

lemma Filter_call_idem: "Filter_call p s = Inr r \<Longrightarrow> Filter_call p r = Inr r"
  by (auto simp: Filter_call_def py_filter_idem split: option.splits sum.splits)

text \<open>
  C1, as amended. \<^verbatim>\<open>Filter(None)\<close> hands \<^verbatim>\<open>None\<close> to the builtin
  \<^verbatim>\<open>filter\<close>, which then keeps exactly the elements that are true: on
  \<^verbatim>\<open>['A', 0, '', 0.0, None, -1]\<close> it returns \<^verbatim>\<open>('A', -1)\<close>, as the docstring of
  the class says. Excluding only \<^verbatim>\<open>None\<close> is what the explicit predicate
  \<^verbatim>\<open>lambda v: v is not None\<close> does, which returns \<^verbatim>\<open>('A', 0, '', 0.0, -1)\<close>.
\<close>

theorem Filter_None_keeps_true_elements:
  "Filter_call (Filter_init None) (PList xs) = Inr (PTuple (filter truthy xs))
   \<and> Filter_call (Filter_init None) docstring_values = Inr (PTuple [PStr ''A'', PInt (- 1)])
   \<and> Filter_call (Filter_init (Some is_not_None)) docstring_values
       = Inr (PTuple [PStr ''A'', PInt 0, PStr [], PFloat 0, PInt (- 1)])"
  by (simp add: Filter_call_def Filter_init_def docstring_values_def is_not_None_def)

theorem Filter_None_keeps_true_elements_witness:
  "Filter_call (Filter_init None) (PList [PInt 0, PStr ''A'', PStr []])
     = Inr (PTuple [PStr ''A''])"
  using Filter_None_keeps_true_elements [of "[PInt 0, PStr ''A'', PStr []]"]
  by simp

text \<open>
  C1 as stated fails: \<^verbatim>\<open>Filter(None)\<close> on \<^verbatim>\<open>['A', 0, '', 0.0, None, -1]\<close> does
  not return \<^verbatim>\<open>('A', 0, '', 0.0, -1)\<close>.
\<close>

theorem Filter_None_counterexample:
  "Filter_call (Filter_init None) docstring_values
     \<noteq> Inr (PTuple [PStr ''A'', PInt 0, PStr [], PFloat 0, PInt (- 1)])"
  by (simp add: Filter_call_def Filter_init_def docstring_values_def)

lemma slice_index_begin:
  "b = None \<or> (\<exists>i. b = Some i \<and> i \<le> 0) \<Longrightarrow> e = None \<or> (\<exists>j. e = Some j \<and> 0 \<le> j) \<Longrightarrow>
   slice_index (slice_index n e n - slice_index n b 0) b 0 = 0"
  by (auto simp: slice_index_def)

lemma slice_index_end:
  "e = None \<or> (\<exists>j. e = Some j \<and> 0 \<le> j) \<Longrightarrow>
   slice_index (slice_index n e n - k) e (slice_index n e n - k) = slice_index n e n - k"
  by (auto simp: slice_index_def)

lemma py_slice_idem:
  assumes "b = None \<or> (\<exists>i. b = Some i \<and> i \<le> 0)"
    and "e = None \<or> (\<exists>j. e = Some j \<and> 0 \<le> j)"
  shows "py_slice b e (py_slice b e xs) = py_slice b e xs"
proof -
  let ?n = "length xs"
  let ?start = "slice_index ?n b 0"
  let ?stop = "slice_index ?n e ?n"
  have le: "?stop \<le> ?n" "?start \<le> ?n"
    by (auto simp: slice_index_def split: option.splits)
  have len: "length (py_slice b e xs) = ?stop - ?start"
    using le by (simp add: py_slice_def Let_def)
  show ?thesis
    unfolding py_slice_def[of b e "py_slice b e xs"] Let_def len
    using slice_index_begin[OF assms, of ?n] slice_index_end[OF assms(2), of ?n ?start]
    by (simp add: len[symmetric])
qed

lemma Slice_call_idem:
  assumes "b = None \<or> (\<exists>i. b = Some i \<and> i \<le> 0)"
    and "e = None \<or> (\<exists>j. e = Some j \<and> 0 \<le> j)"
    and "Slice_call b e s = Inr r"
  shows "Slice_call b e r = Inr r"
  using assms(3) by (cases s) (auto simp: py_slice_idem[OF assms(1,2)])

text \<open>
  C2, as amended. \<^verbatim>\<open>Identity\<close> is idempotent on every value. \<^verbatim>\<open>Filter(p)\<close>
  with a pure predicate (or \<^verbatim>\<open>None\<close>) is idempotent: when it returns \<open>r\<close> on a
  value, it returns \<open>r\<close> on \<open>r\<close>; and it returns on every sequence on whose elements
  the predicate returns. \<^verbatim>\<open>Slice(b, e)\<close> is idempotent when \<open>b\<close> is
  \<^verbatim>\<open>None\<close> or at most 0 and \<open>e\<close> is \<^verbatim>\<open>None\<close> or at least 0.
\<close>

theorem primitives_idempotent:
  "Identity_call (Identity_call s) = Identity_call s
   \<and> (Filter_call p s = Inr r \<longrightarrow> Filter_call p r = Inr r)
   \<and> (py_iter s = Some xs \<and> list_all (\<lambda>x. \<not> isl (f x)) xs \<longrightarrow> \<not> isl (Filter_call (Some f) s))
   \<and> ((case b of None \<Rightarrow> True | Some i \<Rightarrow> i \<le> 0) \<and> (case e of None \<Rightarrow> True | Some j \<Rightarrow> 0 \<le> j)
        \<and> Slice_call b e s = Inr r' \<longrightarrow> Slice_call b e r' = Inr r')"
proof -
  have a: "Identity_call (Identity_call s) = Identity_call s"
    by (simp add: Identity_call_def)
  have b: "Filter_call p s = Inr r \<longrightarrow> Filter_call p r = Inr r"
    by (simp add: Filter_call_idem)
  have c: "py_iter s = Some xs \<and> list_all (\<lambda>x. \<not> isl (f x)) xs \<longrightarrow> \<not> isl (Filter_call (Some f) s)"
    using py_filter_total[of f xs] by (auto simp: Filter_call_def split: sum.splits)
  have d: "(case b of None \<Rightarrow> True | Some i \<Rightarrow> i \<le> 0) \<and> (case e of None \<Rightarrow> True | Some j \<Rightarrow> 0 \<le> j)
        \<and> Slice_call b e s = Inr r' \<longrightarrow> Slice_call b e r' = Inr r'"
    using Slice_call_idem[of b e s r'] by (auto split: option.splits)
  from a b c d show ?thesis by blast
qed

theorem primitives_idempotent_witness:
  "Filter_call (Some default_function) docstring_values
       = Inr (PTuple [PStr ''A'', PInt 0, PFloat 0, PInt (- 1)])
   \<and> Filter_call (Some default_function) (PTuple [PStr ''A'', PInt 0, PFloat 0, PInt (- 1)])
       = Inr (PTuple [PStr ''A'', PInt 0, PFloat 0, PInt (- 1)])
   \<and> Slice_call (Some (- 3)) (Some 3) (PList [PInt 2, PInt 3, PInt 5, PInt 7])
       = Inr (PList [PInt 3, PInt 5])
   \<and> Slice_call (Some (- 3)) (Some 3) (PList [PInt 3, PInt 5]) = Inr (PList [PInt 3, PInt 5])
   \<and> \<not> isl (Filter_call (Some default_function) docstring_values)"
  using primitives_idempotent
    [where s = docstring_values and p = "Some default_function"
       and r = "PTuple [PStr ''A'', PInt 0, PFloat 0, PInt (- 1)]"
       and xs = "[PStr ''A'', PInt 0, PStr [], PFloat 0, PNone, PInt (- 1)]"
       and f = default_function]
    primitives_idempotent
    [where s = "PList [PInt 2, PInt 3, PInt 5, PInt 7]" and b = "Some (- 3)" and e = "Some 3"
       and r' = "PList [PInt 3, PInt 5]"]
  by (simp add: Filter_call_def docstring_values_def default_function_def py_slice_def
      slice_index_def)

text \<open>
  C2 as stated fails for \<^verbatim>\<open>Slice\<close>: \<^verbatim>\<open>Slice(1)\<close> on \<^verbatim>\<open>[2, 3, 5, 7]\<close>
  returns \<^verbatim>\<open>[3, 5, 7]\<close>, and on that list it returns \<^verbatim>\<open>[5, 7]\<close>.
\<close>

theorem Slice_idempotent_counterexample:
  "Slice_call (Some 1) None (PList [PInt 2, PInt 3, PInt 5, PInt 7])
       = Inr (PList [PInt 3, PInt 5, PInt 7])
   \<and> Slice_call (Some 1) None (PList [PInt 3, PInt 5, PInt 7]) = Inr (PList [PInt 5, PInt 7])
   \<and> Slice_call (Some 1) None (PList [PInt 3, PInt 5, PInt 7])
       \<noteq> Inr (PList [PInt 3, PInt 5, PInt 7])"
  by (simp add: py_slice_def slice_index_def)

lemma take_first_find:
  "list_all (\<lambda>x. \<not> isl (f x)) xs \<Longrightarrow> take_first f xs = Inr (first_or_None (holds f) xs)"
  by (induction xs) (auto simp: first_or_None_def holds_def split: sum.splits)

lemma take_first_no_match:
  "list_all (\<lambda>x. \<not> isl (f x) \<and> \<not> holds f x) xs \<Longrightarrow> take_first f xs = Inr PNone"
  by (induction xs) (auto simp: holds_def split: sum.splits)

lemma holds_default: "holds default_function = (\<lambda>v. v \<noteq> PNone \<and> v \<noteq> PStr [])"
  by (auto simp: holds_def default_function_def fun_eq_iff)

lemma holds_bool: "holds py_bool = truthy"
  by (auto simp: holds_def py_bool_def fun_eq_iff)

lemma total_default: "list_all (\<lambda>x. \<not> isl (default_function x)) xs"
  by (simp add: list_all_iff default_function_def)

lemma total_bool: "list_all (\<lambda>x. \<not> isl (py_bool x)) xs"
  by (simp add: list_all_iff py_bool_def)

text \<open>
  C5. On a sequence \<open>s\<close> with the elements \<open>xs\<close>: \<^verbatim>\<open>TakeFirst()\<close> returns the first
  element that is neither \<^verbatim>\<open>None\<close> nor the empty string;
  \<^verbatim>\<open>TakeFirst(None)\<close> returns the first element that is true; \<^verbatim>\<open>TakeFirst(f)\<close>
  returns the first element on which \<open>f\<close> is true, provided \<open>f\<close> returns on the
  elements; each returns \<^verbatim>\<open>None\<close>, and does not raise, when no element matches, in
  particular on the empty sequence. On \<^verbatim>\<open>(0, 'A')\<close>, \<^verbatim>\<open>('', 0)\<close> and
  \<^verbatim>\<open>(None, 'A')\<close> the default returns \<^verbatim>\<open>0\<close>, \<^verbatim>\<open>0\<close> and \<^verbatim>\<open>'A'\<close>.
\<close>

theorem TakeFirst_first_match:
  assumes "py_iter s = Some xs"
  shows "TakeFirst_call (TakeFirst_init (Some default_function)) s
           = Inr (first_or_None (\<lambda>v. v \<noteq> PNone \<and> v \<noteq> PStr []) xs)
       \<and> TakeFirst_call (TakeFirst_init None) s = Inr (first_or_None truthy xs)
       \<and> (list_all (\<lambda>x. \<not> isl (f x)) xs \<longrightarrow>
            TakeFirst_call (TakeFirst_init (Some f)) s = Inr (first_or_None (holds f) xs))
       \<and> (list_all (\<lambda>x. \<not> isl (f x) \<and> \<not> holds f x) xs \<longrightarrow>
            TakeFirst_call (TakeFirst_init (Some f)) s = Inr PNone)
       \<and> TakeFirst_call (TakeFirst_init (Some f)) (PTuple []) = Inr PNone
       \<and> TakeFirst_call (TakeFirst_init (Some default_function)) (PTuple [PInt 0, PStr ''A''])
           = Inr (PInt 0)
       \<and> TakeFirst_call (TakeFirst_init (Some default_function)) (PTuple [PStr [], PInt 0])
           = Inr (PInt 0)
       \<and> TakeFirst_call (TakeFirst_init (Some default_function)) (PTuple [PNone, PStr ''A''])
           = Inr (PStr ''A'')"
proof -
  have a: "TakeFirst_call (TakeFirst_init (Some default_function)) s
           = Inr (first_or_None (\<lambda>v. v \<noteq> PNone \<and> v \<noteq> PStr []) xs)"
    using assms take_first_find[OF total_default, of xs]
    by (simp add: TakeFirst_call_def TakeFirst_init_def holds_default)
  have b: "TakeFirst_call (TakeFirst_init None) s = Inr (first_or_None truthy xs)"
    using assms take_first_find[OF total_bool, of xs]
    by (simp add: TakeFirst_call_def TakeFirst_init_def holds_bool)
  have c: "list_all (\<lambda>x. \<not> isl (f x)) xs \<longrightarrow>
            TakeFirst_call (TakeFirst_init (Some f)) s = Inr (first_or_None (holds f) xs)"
    using assms by (simp add: TakeFirst_call_def TakeFirst_init_def take_first_find)
  have d: "list_all (\<lambda>x. \<not> isl (f x) \<and> \<not> holds f x) xs \<longrightarrow>
            TakeFirst_call (TakeFirst_init (Some f)) s = Inr PNone"
    using assms by (simp add: TakeFirst_call_def TakeFirst_init_def take_first_no_match)
  have e: "TakeFirst_call (TakeFirst_init (Some f)) (PTuple []) = Inr PNone"
    by (simp add: TakeFirst_call_def TakeFirst_init_def)
  have g: "TakeFirst_call (TakeFirst_init (Some default_function)) (PTuple [PInt 0, PStr ''A''])
             = Inr (PInt 0)"
    "TakeFirst_call (TakeFirst_init (Some default_function)) (PTuple [PStr [], PInt 0])
             = Inr (PInt 0)"
    "TakeFirst_call (TakeFirst_init (Some default_function)) (PTuple [PNone, PStr ''A''])
             = Inr (PStr ''A'')"
    by (simp_all add: TakeFirst_call_def TakeFirst_init_def default_function_def)
  from a b c d e g show ?thesis by blast
qed

theorem TakeFirst_first_match_witness:
  "py_iter (PTuple [PStr [], PInt 0]) = Some [PStr [], PInt 0]
   \<and> TakeFirst_call (TakeFirst_init (Some default_function)) (PTuple [PStr [], PInt 0])
       = Inr (PInt 0)
   \<and> TakeFirst_call (TakeFirst_init None) (PTuple [PStr [], PInt 0]) = Inr PNone
   \<and> list_all (\<lambda>x. \<not> isl (py_bool x)) [PStr [], PInt 0]
   \<and> list_all (\<lambda>x. \<not> isl (py_bool x) \<and> \<not> holds py_bool x) [PStr [], PInt 0]
   \<and> TakeFirst_call (TakeFirst_init (Some py_bool)) (PTuple [PStr [], PInt 0]) = Inr PNone"
  using TakeFirst_first_match [of "PTuple [PStr [], PInt 0]" "[PStr [], PInt 0]" py_bool]
  by (simp add: first_or_None_def holds_def py_bool_def)

section \<open>Compose\<close>

lemma invocation_of_wrap:
  "invocation_of (wrap_loader_context f ctx) v = (f, v, passed_context f ctx)"
  by (simp add: wrap_loader_context_def passed_context_def)

lemma compose_loop_None: "truthy stop \<Longrightarrow> compose_loop stop ws PNone = (Inr PNone, [])"
  by (cases ws) simp_all

lemma compose_loop_append_None:
  "truthy stop \<Longrightarrow> compose_loop stop ws v = (Inr PNone, cs) \<Longrightarrow>
   compose_loop stop (ws @ ws') v = (Inr PNone, cs)"
proof (induction ws arbitrary: v cs)
  case Nil
  then show ?case by (simp add: compose_loop_None)
next
  case (Cons w ws)
  then show ?case
    by (auto simp: Let_def split: if_splits sum.splits prod.splits)
qed

lemma compose_loop_all_invoked:
  "\<not> truthy stop \<Longrightarrow>
   compose_loop stop (map (\<lambda>f. wrap_loader_context f ctx) fs) v = (Inr r, cs) \<Longrightarrow>
   map fst cs = fs"
proof (induction fs arbitrary: v cs)
  case Nil
  then show ?case by simp
next
  case (Cons f fs)
  then show ?case
    by (auto simp: Let_def invocation_of_wrap split: if_splits sum.splits prod.splits)
qed

lemma compose_two:
  "\<not> truthy stop \<Longrightarrow>
   compose_loop stop [wrap_loader_context f ctx, wrap_loader_context g ctx] PNone =
     (case body f PNone (passed_context f ctx) of
        Inl e \<Rightarrow> (Inl e, [(f, PNone, passed_context f ctx)])
      | Inr v \<Rightarrow> (body g v (passed_context g ctx),
                  [(f, PNone, passed_context f ctx), (g, v, passed_context g ctx)]))"
  by (auto simp: Let_def invocation_of_wrap split: sum.splits)

text \<open>
  C3. \<^verbatim>\<open>stop_on_none\<close> is read from the keyword arguments and is \<^verbatim>\<open>True\<close> when
  they do not give it. When it is true, \<^verbatim>\<open>Compose\<close> called on \<^verbatim>\<open>None\<close> returns
  \<^verbatim>\<open>None\<close> and invokes no function; and when a chain returns \<^verbatim>\<open>None\<close>, the same
  chain followed by any further functions returns \<^verbatim>\<open>None\<close> with the same
  invocations: the further functions are not invoked. When it is false, a call that
  returns has invoked every function, in order, and \<^verbatim>\<open>Compose(f, g, stop_on_none=False)\<close>
  on \<^verbatim>\<open>None\<close> invokes \<open>f\<close> on \<^verbatim>\<open>None\<close> and then \<open>g\<close> on the result, and
  returns what \<open>g\<close> returns.
\<close>

theorem Compose_short_circuit:
  "stop_on_none (Compose_init fs kwargs) = dict_get kwargs ''stop_on_none'' (PBool True)
   \<and> (map_of kwargs ''stop_on_none'' = None \<longrightarrow> truthy (stop_on_none (Compose_init fs kwargs)))
   \<and> (truthy (stop_on_none self) \<longrightarrow> Compose_call self PNone lc = (Inr PNone, []))
   \<and> (truthy (stop_on_none self) \<and> Compose_call (self\<lparr>funcs := fs\<rparr>) v lc = (Inr PNone, cs) \<longrightarrow>
        Compose_call (self\<lparr>funcs := fs @ fs'\<rparr>) v lc = (Inr PNone, cs))
   \<and> (\<not> truthy (stop_on_none self) \<and> Compose_call self v lc = (Inr r, cs) \<longrightarrow>
        map fst cs = funcs self)
   \<and> (\<not> truthy (stop_on_none self) \<and> funcs self = [f, g] \<longrightarrow>
        Compose_call self PNone lc =
          (let ctx = call_context lc (default_loader_context self) in
           case body f PNone (passed_context f ctx) of
             Inl e \<Rightarrow> (Inl e, [(f, PNone, passed_context f ctx)])
           | Inr v \<Rightarrow> (body g v (passed_context g ctx),
                       [(f, PNone, passed_context f ctx), (g, v, passed_context g ctx)])))"
proof -
  have a: "stop_on_none (Compose_init fs kwargs) = dict_get kwargs ''stop_on_none'' (PBool True)"
    by (simp add: Compose_init_def)
  have b: "map_of kwargs ''stop_on_none'' = None \<longrightarrow>
      truthy (stop_on_none (Compose_init fs kwargs))"
    by (simp add: Compose_init_def dict_get_def)
  have c: "truthy (stop_on_none self) \<longrightarrow> Compose_call self PNone lc = (Inr PNone, [])"
    by (simp add: Compose_call_def Let_def compose_loop_None)
  have d: "truthy (stop_on_none self) \<and> Compose_call (self\<lparr>funcs := fs\<rparr>) v lc = (Inr PNone, cs) \<longrightarrow>
        Compose_call (self\<lparr>funcs := fs @ fs'\<rparr>) v lc = (Inr PNone, cs)"
    by (simp add: Compose_call_def Let_def compose_loop_append_None)
  have e: "\<not> truthy (stop_on_none self) \<and> Compose_call self v lc = (Inr r, cs) \<longrightarrow>
        map fst cs = funcs self"
    using compose_loop_all_invoked by (auto simp add: Compose_call_def Let_def)
  have g: "\<not> truthy (stop_on_none self) \<and> funcs self = [f, g] \<longrightarrow>
        Compose_call self PNone lc =
          (let ctx = call_context lc (default_loader_context self) in
           case body f PNone (passed_context f ctx) of
             Inl e \<Rightarrow> (Inl e, [(f, PNone, passed_context f ctx)])
           | Inr v \<Rightarrow> (body g v (passed_context g ctx),
                       [(f, PNone, passed_context f ctx), (g, v, passed_context g ctx)]))"
    using compose_two by (simp add: Compose_call_def Let_def)
  from a b c d e g show ?thesis by blast
qed

theorem Compose_short_circuit_witness:
  "truthy (stop_on_none (Compose_init [in_list, get_unit] []))
   \<and> Compose_call (Compose_init [in_list, get_unit] []) PNone None = (Inr PNone, [])
   \<and> Compose_call (Compose_init [get_unit] []) (PInt 1) None
       = (Inr PNone, [(get_unit, PInt 1, Some (Dict []))])
   \<and> Compose_call (Compose_init [get_unit, in_list] []) (PInt 1) None
       = (Inr PNone, [(get_unit, PInt 1, Some (Dict []))])
   \<and> \<not> truthy (stop_on_none (Compose_init [get_unit, in_list] [(''stop_on_none'', PBool False)]))
   \<and> Compose_call (Compose_init [get_unit, in_list] [(''stop_on_none'', PBool False)]) PNone None
       = (Inr (PList [PNone]),
          [(get_unit, PNone, Some (Dict [(''stop_on_none'', PBool False)])),
           (in_list, PNone, None)])"
  using Compose_short_circuit
    [where fs = "[get_unit]" and kwargs = "[]" and self = "Compose_init [in_list, get_unit] []"
       and lc = None and v = "PInt 1" and cs = "[(get_unit, PInt 1, Some (Dict []))]"
       and fs' = "[in_list]"]
    Compose_short_circuit
    [where fs = "[get_unit, in_list]" and kwargs = "[(''stop_on_none'', PBool False)]"
       and self = "Compose_init [get_unit, in_list] [(''stop_on_none'', PBool False)]"
       and lc = None and v = PNone and r = "PList [PNone]"
       and cs = "[(get_unit, PNone, Some (Dict [(''stop_on_none'', PBool False)])),
                  (in_list, PNone, None)]"
       and f = get_unit and g = in_list]
  by (simp add: Compose_init_def Compose_call_def dict_get_def
      wrap_loader_context_def passed_context_def get_unit_def in_list_def)

section \<open>Exceptions of the functions\<close>

lemma faithful_Cons: "returned c \<Longrightarrow> faithful r cs \<Longrightarrow> faithful r (c # cs)"
  by (cases cs) (auto simp: returned_def split: option.splits)

lemma faithful_None: "faithful None cs = list_all returned cs"
  by (induction cs rule: induct_list012) auto

lemma faithful_append:
  "faithful None cs \<Longrightarrow> faithful r cs' \<Longrightarrow> faithful r (cs @ cs')"
  unfolding faithful_None by (induction cs) (auto intro: faithful_Cons)

lemma faithful_raise:
  "faithful r cs \<Longrightarrow> i < length cs \<Longrightarrow> outcome (cs ! i) = Inl e \<Longrightarrow>
   Suc i = length cs \<and> r = Some e"
proof (induction r cs arbitrary: i rule: faithful.induct)
  case (1 r)
  then show ?case by simp
next
  case (2 r c)
  then show ?case by (auto simp: returned_def split: option.splits)
next
  case (3 r c c' cs)
  then show ?case by (cases i) (auto simp: returned_def)
qed

lemma faithful_Some:
  "faithful (Some e) cs \<Longrightarrow> cs \<noteq> [] \<and> outcome (last cs) = Inl e"
  by (induction cs rule: induct_list012) auto

lemma compose_loop_faithful:
  "compose_loop stop ws v = (res, cs) \<Longrightarrow> faithful (raised res) cs"
proof (induction ws arbitrary: v res cs)
  case Nil
  then show ?case by (auto simp: raised_def)
next
  case (Cons w ws)
  show ?case
  proof (cases "v = PNone \<and> truthy stop")
    case True
    with Cons.prems show ?thesis by (auto simp: raised_def)
  next
    case False
    show ?thesis
    proof (cases "outcome (invocation_of w v)")
      case (Inl e)
      with False Cons.prems have "res = Inl e" "cs = [invocation_of w v]"
        by (auto simp: Let_def split: if_splits)
      with Inl show ?thesis by (simp add: raised_def)
    next
      case (Inr v')
      obtain r' cs' where run: "compose_loop stop ws v' = (r', cs')"
        by (cases "compose_loop stop ws v'")
      from False Inr run Cons.prems
      have eq: "res = r'" "cs = invocation_of w v # cs'"
        by (auto simp: Let_def split: if_splits)
      have "returned (invocation_of w v)"
        using Inr by (simp add: returned_def)
      with Cons.IH[OF run] show ?thesis
        unfolding eq by (simp add: faithful_Cons)
    qed
  qed
qed

lemma py_iter_arg_to_iter: "py_iter (arg_to_iter r) \<noteq> None"
  by (cases r) auto

lemma map_stage_faithful:
  "map_stage w xs acc = (res, cs) \<Longrightarrow> faithful (raised res) cs"
proof (induction xs arbitrary: acc res cs)
  case Nil
  then show ?case by (auto simp: raised_def)
next
  case (Cons x xs)
  show ?case
  proof (cases "outcome (invocation_of w x)")
    case (Inl e)
    with Cons.prems have "res = Inl e" "cs = [invocation_of w x]"
      by (auto simp: Let_def)
    with Inl show ?thesis by (simp add: raised_def)
  next
    case (Inr r)
    obtain ys where ys: "py_iter (arg_to_iter r) = Some ys"
      using py_iter_arg_to_iter[of r] by auto
    obtain r' cs' where run: "map_stage w xs (acc @ ys) = (r', cs')"
      by (cases "map_stage w xs (acc @ ys)")
    from Inr ys run Cons.prems
    have eq: "res = r'" "cs = invocation_of w x # cs'"
      by (auto simp: Let_def)
    have "returned (invocation_of w x)"
      using Inr by (simp add: returned_def)
    with Cons.IH[OF run] show ?thesis
      unfolding eq by (simp add: faithful_Cons)
  qed
qed

lemma map_stages_faithful:
  "py_iter vals \<noteq> None \<Longrightarrow> map_stages ws vals = (res, cs) \<Longrightarrow> faithful (raised res) cs"
proof (induction ws arbitrary: vals res cs)
  case Nil
  then show ?case by (auto simp: raised_def)
next
  case (Cons w ws)
  from Cons.prems(1) obtain xs where xs: "py_iter vals = Some xs" by auto
  obtain r1 cs1 where st: "map_stage w xs [] = (r1, cs1)"
    by (cases "map_stage w xs []")
  have f1: "faithful (raised r1) cs1" using st by (rule map_stage_faithful)
  show ?case
  proof (cases r1)
    case (Inl e)
    with xs st Cons.prems(2) have "res = Inl e" "cs = cs1" by simp_all
    with f1 Inl show ?thesis by (simp add: raised_def)
  next
    case (Inr nv)
    obtain r2 cs2 where run: "map_stages ws (PList nv) = (r2, cs2)"
      by (cases "map_stages ws (PList nv)")
    from xs st Inr run Cons.prems(2) have eq: "res = r2" "cs = cs1 @ cs2" by simp_all
    have "faithful (raised r2) cs2" using Cons.IH[OF _ run] by simp
    with f1 Inr show ?thesis unfolding eq by (auto simp: raised_def intro: faithful_append)
  qed
qed

lemma Compose_call_faithful:
  "Compose_call self v lc = (res, cs) \<Longrightarrow> faithful (raised res) cs"
  by (simp add: Compose_call_def Let_def compose_loop_faithful)

lemma MapCompose_call_faithful:
  "MapCompose_call m v lc = (res, cs) \<Longrightarrow> faithful (raised res) cs"
  using map_stages_faithful[OF py_iter_arg_to_iter]
  by (simp add: MapCompose_call_def Let_def)

text \<open>
  C7. In a call of \<^verbatim>\<open>Compose\<close> or \<^verbatim>\<open>MapCompose\<close> that ended with \<open>res\<close>
  after the invocations \<open>cs\<close>: an invocation that raised \<open>e\<close> is the last one the call
  made, and the call ended with that same \<open>e\<close>; and a call that ended with an exception
  \<open>e\<close> made an invocation, the last of which raised \<open>e\<close>. So an exception of a function
  leaves the call unchanged, nothing is invoked after it, and the processors raise
  nothing of their own.
\<close>

theorem exceptions_propagate:
  "(Compose_call self v lc = (res, cs) \<or> MapCompose_call m v lc = (res, cs)) \<longrightarrow>
     (i < length cs \<and> outcome (cs ! i) = Inl e \<longrightarrow> Suc i = length cs \<and> res = Inl e)
     \<and> (res = Inl e \<longrightarrow> cs \<noteq> [] \<and> outcome (last cs) = Inl e)"
proof -
  have "faithful (raised res) cs"
    if "Compose_call self v lc = (res, cs) \<or> MapCompose_call m v lc = (res, cs)"
    using that Compose_call_faithful MapCompose_call_faithful by blast
  moreover have "raised res = Some e \<longleftrightarrow> res = Inl e"
    by (auto simp: raised_def split: sum.splits)
  ultimately show ?thesis
    using faithful_raise[of "raised res" cs i e] faithful_Some[of e cs] by auto
qed

theorem exceptions_propagate_witness:
  "Compose_call (Compose_init [in_list, failing, twice] []) (PInt 1) None
      = (Inl (Raised ''boom''), [(in_list, PInt 1, None), (failing, PList [PInt 1], None)])
   \<and> outcome ([(in_list, PInt 1, None), (failing, PList [PInt 1], None)] ! 1)
      = Inl (Raised ''boom'')
   \<and> MapCompose_call (MapCompose_init [twice, failing, in_list] []) (PInt 1) None
      = (Inl (Raised ''boom''),
         [(twice, PInt 1, None), (failing, PInt 1, None)])
   \<and> outcome (last [(twice, PInt 1, None), (failing, PInt 1, None)]) = Inl (Raised ''boom'')"
  using exceptions_propagate
    [where self = "Compose_init [in_list, failing, twice] []" and v = "PInt 1" and lc = None
       and res = "Inl (Raised ''boom'')"
       and cs = "[(in_list, PInt 1, None), (failing, PList [PInt 1], None)]"
       and i = 1 and e = "Raised ''boom''"]
    exceptions_propagate
    [where m = "MapCompose_init [twice, failing, in_list] []" and v = "PInt 1" and lc = None
       and res = "Inl (Raised ''boom'')"
       and cs = "[(twice, PInt 1, None), (failing, PInt 1, None)]"
       and i = 1 and e = "Raised ''boom''"]
  by (simp add: Compose_init_def Compose_call_def MapCompose_init_def MapCompose_call_def
      dict_get_def wrap_loader_context_def in_list_def failing_def twice_def)

section \<open>The context the functions are called with\<close>

lemma called_with_mono: "called_with fs ctx c \<Longrightarrow> set fs \<subseteq> set gs \<Longrightarrow> called_with gs ctx c"
  by (auto simp: called_with_def)

lemma called_with_wrap:
  "called_with (f # fs) ctx (invocation_of (wrap_loader_context f ctx) v)"
  by (simp add: called_with_def invocation_of_wrap)

lemma compose_loop_contexts:
  "compose_loop stop (map (\<lambda>f. wrap_loader_context f ctx) fs) v = (res, cs) \<Longrightarrow>
   list_all (called_with fs ctx) cs"
proof (induction fs arbitrary: v res cs)
  case Nil
  then show ?case by auto
next
  case (Cons f fs)
  let ?c = "invocation_of (wrap_loader_context f ctx) v"
  have c: "called_with (f # fs) ctx ?c" by (rule called_with_wrap)
  show ?case
  proof (cases "v = PNone \<and> truthy stop")
    case True
    with Cons.prems show ?thesis by auto
  next
    case False
    show ?thesis
    proof (cases "outcome ?c")
      case (Inl e)
      with False Cons.prems have "cs = [?c]"
        by (auto simp: Let_def split: if_splits)
      with c show ?thesis by simp
    next
      case (Inr v')
      obtain r' cs' where run:
        "compose_loop stop (map (\<lambda>f. wrap_loader_context f ctx) fs) v' = (r', cs')"
        by (cases "compose_loop stop (map (\<lambda>f. wrap_loader_context f ctx) fs) v'")
      from False Inr run Cons.prems have eq: "cs = ?c # cs'"
        by (auto simp: Let_def split: if_splits)
      from Cons.IH[OF run] have "list_all (called_with (f # fs) ctx) cs'"
        by (auto simp: list_all_iff intro: called_with_mono)
      with c show ?thesis unfolding eq by simp
    qed
  qed
qed

lemma map_stage_contexts:
  "map_stage (wrap_loader_context f ctx) xs acc = (res, cs) \<Longrightarrow>
   list_all (called_with [f] ctx) cs"
proof (induction xs arbitrary: acc res cs)
  case Nil
  then show ?case by auto
next
  case (Cons x xs)
  let ?c = "invocation_of (wrap_loader_context f ctx) x"
  have c: "called_with [f] ctx ?c" by (rule called_with_wrap)
  show ?case
  proof (cases "outcome ?c")
    case (Inl e)
    with Cons.prems have "cs = [?c]" by (auto simp: Let_def)
    with c show ?thesis by simp
  next
    case (Inr r)
    obtain ys where ys: "py_iter (arg_to_iter r) = Some ys"
      using py_iter_arg_to_iter[of r] by auto
    obtain r' cs' where run: "map_stage (wrap_loader_context f ctx) xs (acc @ ys) = (r', cs')"
      by (cases "map_stage (wrap_loader_context f ctx) xs (acc @ ys)")
    from Inr ys run Cons.prems have eq: "cs = ?c # cs'" by (auto simp: Let_def)
    from Cons.IH[OF run] c show ?thesis unfolding eq by simp
  qed
qed

lemma map_stages_contexts:
  "map_stages (map (\<lambda>f. wrap_loader_context f ctx) fs) vals = (res, cs) \<Longrightarrow>
   list_all (called_with fs ctx) cs"
proof (induction fs arbitrary: vals res cs)
  case Nil
  then show ?case by auto
next
  case (Cons f fs)
  show ?case
  proof (cases "py_iter vals")
    case None
    with Cons.prems show ?thesis by auto
  next
    case (Some xs)
    obtain r1 cs1 where st: "map_stage (wrap_loader_context f ctx) xs [] = (r1, cs1)"
      by (cases "map_stage (wrap_loader_context f ctx) xs []")
    from map_stage_contexts[OF st]
    have c1: "list_all (called_with (f # fs) ctx) cs1"
      by (auto simp: list_all_iff intro: called_with_mono)
    show ?thesis
    proof (cases r1)
      case (Inl e)
      with Some st Cons.prems have "cs = cs1" by simp
      with c1 show ?thesis by simp
    next
      case (Inr nv)
      obtain r2 cs2 where run:
        "map_stages (map (\<lambda>f. wrap_loader_context f ctx) fs) (PList nv) = (r2, cs2)"
        by (cases "map_stages (map (\<lambda>f. wrap_loader_context f ctx) fs) (PList nv)")
      from Some st Inr run Cons.prems have eq: "cs = cs1 @ cs2" by simp
      from Cons.IH[OF run]
      have "list_all (called_with (f # fs) ctx) cs2"
        by (auto simp: list_all_iff intro: called_with_mono)
      with c1 show ?thesis unfolding eq by simp
    qed
  qed
qed

lemma Compose_call_contexts:
  "list_all (called_with (funcs self) (call_context lc (default_loader_context self)))
     (snd (Compose_call self v lc))"
  using compose_loop_contexts
    [of "stop_on_none self" "call_context lc (default_loader_context self)" "funcs self" v
        "fst (Compose_call self v lc)" "snd (Compose_call self v lc)"]
  by (simp add: Compose_call_def Let_def)

lemma MapCompose_call_contexts:
  "list_all (called_with (funcs m) (call_context lc (default_loader_context m)))
     (snd (MapCompose_call m v lc))"
  using map_stages_contexts
    [of "call_context lc (default_loader_context m)" "funcs m" "arg_to_iter v"
        "fst (MapCompose_call m v lc)" "snd (MapCompose_call m v lc)"]
  by (simp add: MapCompose_call_def Let_def)

lemma call_context_given: "rc \<noteq> [] \<Longrightarrow> call_context (Some rc) d = MergeDict [rc, d]"
  by (simp add:)

lemma call_context_absent: "lc = None \<or> lc = Some [] \<Longrightarrow> call_context lc d = Dict d"
  by (auto simp:)

text \<open>
  C10. When the runtime context of a call of \<^verbatim>\<open>Compose\<close> or \<^verbatim>\<open>MapCompose\<close> is
  \<^verbatim>\<open>None\<close> or an empty mapping, the context the functions are wrapped with is the
  pipeline's default context itself, no merge is made, the call is the call without a
  runtime context, and every context-aware function is called with the default context;
  a merge, in which the runtime context overrides, is made for a non-empty runtime
  context.
\<close>

theorem default_context_without_runtime_context:
  "(lc = None \<or> lc = Some [] \<longrightarrow>
      call_context lc d = Dict d
      \<and> Compose_call self v lc = Compose_call self v None
      \<and> MapCompose_call m v lc = MapCompose_call m v None
      \<and> (\<forall>(f, a, c) \<in> set (snd (Compose_call self v lc)).
            c = (if takes_context f then Some (Dict (default_loader_context self)) else None))
      \<and> (\<forall>(f, a, c) \<in> set (snd (MapCompose_call m v lc)).
            c = (if takes_context f then Some (Dict (default_loader_context m)) else None)))
   \<and> (rc \<noteq> [] \<longrightarrow> call_context (Some rc) d = MergeDict [rc, d])"
proof -
  have "call_context lc d = Dict d
      \<and> Compose_call self v lc = Compose_call self v None
      \<and> MapCompose_call m v lc = MapCompose_call m v None
      \<and> (\<forall>(f, a, c) \<in> set (snd (Compose_call self v lc)).
            c = (if takes_context f then Some (Dict (default_loader_context self)) else None))
      \<and> (\<forall>(f, a, c) \<in> set (snd (MapCompose_call m v lc)).
            c = (if takes_context f then Some (Dict (default_loader_context m)) else None))"
    if lc: "lc = None \<or> lc = Some []"
  proof -
    have ctx: "call_context lc d' = Dict d'" for d'
      using lc by (rule call_context_absent)
    have a: "Compose_call self v lc = Compose_call self v None"
      by (simp add: Compose_call_def ctx call_context_absent)
    have b: "MapCompose_call m v lc = MapCompose_call m v None"
      by (simp add: MapCompose_call_def ctx call_context_absent)
    have c: "\<forall>(f, a, c) \<in> set (snd (Compose_call self v lc)).
            c = (if takes_context f then Some (Dict (default_loader_context self)) else None)"
      using Compose_call_contexts[of self lc v]
      by (auto simp: list_all_iff called_with_def passed_context_def ctx)
    have e: "\<forall>(f, a, c) \<in> set (snd (MapCompose_call m v lc)).
            c = (if takes_context f then Some (Dict (default_loader_context m)) else None)"
      using MapCompose_call_contexts[of m lc v]
      by (auto simp: list_all_iff called_with_def passed_context_def ctx)
    from ctx a b c e show ?thesis by blast
  qed
  moreover have "rc \<noteq> [] \<longrightarrow> call_context (Some rc) d = MergeDict [rc, d]"
    by (simp add: call_context_given)
  ultimately show ?thesis by blast
qed

theorem default_context_without_runtime_context_witness:
  "Compose_call (Compose_init [get_unit] [(''unit'', PStr ''cm'')]) (PInt 1) (Some [])
     = (Inr (PStr ''cm''), [(get_unit, PInt 1, Some (Dict [(''unit'', PStr ''cm'')]))])
   \<and> Compose_call (Compose_init [get_unit] [(''unit'', PStr ''cm'')]) (PInt 1) None
     = (Inr (PStr ''cm''), [(get_unit, PInt 1, Some (Dict [(''unit'', PStr ''cm'')]))])
   \<and> MapCompose_call (MapCompose_init [get_unit] [(''unit'', PStr ''cm'')]) (PInt 1) (Some [])
     = (Inr (PList [PStr ''cm'']), [(get_unit, PInt 1, Some (Dict [(''unit'', PStr ''cm'')]))])
   \<and> call_context (Some [(''unit'', PStr ''m'')]) [(''unit'', PStr ''cm'')]
     = MergeDict [[(''unit'', PStr ''m'')], [(''unit'', PStr ''cm'')]]"
  using default_context_without_runtime_context
    [where lc = "Some []" and d = "[(''unit'', PStr ''cm'')]"
       and self = "Compose_init [get_unit] [(''unit'', PStr ''cm'')]"
       and m = "MapCompose_init [get_unit] [(''unit'', PStr ''cm'')]"
       and v = "PInt 1" and rc = "[(''unit'', PStr ''m'')]"]
  by (simp add: Compose_init_def Compose_call_def MapCompose_init_def MapCompose_call_def
      dict_get_def wrap_loader_context_def get_unit_def Let_def)

lemma context_get_call_context:
  "context_get (call_context lc d) k =
     (case (case lc of None \<Rightarrow> None | Some rc \<Rightarrow> map_of rc k) of
        Some x \<Rightarrow> Some x | None \<Rightarrow> map_of d k)"
  by (cases lc) (simp_all split: option.splits)

text \<open>
  C8. When \<^verbatim>\<open>Compose\<close> is constructed with the keyword argument
  \<^verbatim>\<open>stop_on_none=b\<close>, it reads \<open>b\<close> and stores the keyword arguments unchanged as
  its default context; every context-aware function it invokes is called with the
  context of the call, and that context has an entry \<^verbatim>\<open>stop_on_none\<close>, whose value
  is \<open>b\<close> unless the runtime context overrides it.
\<close>

theorem stop_on_none_stays_in_context:
  "map_of kwargs ''stop_on_none'' = Some b \<longrightarrow>
     stop_on_none (Compose_init fs kwargs) = b
     \<and> default_loader_context (Compose_init fs kwargs) = kwargs
     \<and> (\<forall>(f, a, c) \<in> set (snd (Compose_call (Compose_init fs kwargs) v lc)).
           takes_context f \<longrightarrow> c = Some (call_context lc kwargs))
     \<and> context_get (call_context lc kwargs) ''stop_on_none'' \<noteq> None
     \<and> ((case lc of None \<Rightarrow> True | Some rc \<Rightarrow> map_of rc ''stop_on_none'' = None) \<longrightarrow>
           context_get (call_context lc kwargs) ''stop_on_none'' = Some b)"
proof
  assume k: "map_of kwargs ''stop_on_none'' = Some b"
  have a: "stop_on_none (Compose_init fs kwargs) = b"
    using k by (simp add: Compose_init_def dict_get_def)
  have d: "default_loader_context (Compose_init fs kwargs) = kwargs"
    by (simp add: Compose_init_def)
  have c: "\<forall>(f, a, c) \<in> set (snd (Compose_call (Compose_init fs kwargs) v lc)).
           takes_context f \<longrightarrow> c = Some (call_context lc kwargs)"
    using Compose_call_contexts[of "Compose_init fs kwargs" lc v]
    by (auto simp: list_all_iff called_with_def passed_context_def d)
  have e: "context_get (call_context lc kwargs) ''stop_on_none'' \<noteq> None"
    using k by (simp add: context_get_call_context split: option.splits)
  have g: "(case lc of None \<Rightarrow> True | Some rc \<Rightarrow> map_of rc ''stop_on_none'' = None) \<longrightarrow>
           context_get (call_context lc kwargs) ''stop_on_none'' = Some b"
    using k by (cases lc) (auto simp: context_get_call_context)
  from a d c e g show "stop_on_none (Compose_init fs kwargs) = b
     \<and> default_loader_context (Compose_init fs kwargs) = kwargs
     \<and> (\<forall>(f, a, c) \<in> set (snd (Compose_call (Compose_init fs kwargs) v lc)).
           takes_context f \<longrightarrow> c = Some (call_context lc kwargs))
     \<and> context_get (call_context lc kwargs) ''stop_on_none'' \<noteq> None
     \<and> ((case lc of None \<Rightarrow> True | Some rc \<Rightarrow> map_of rc ''stop_on_none'' = None) \<longrightarrow>
           context_get (call_context lc kwargs) ''stop_on_none'' = Some b)"
    by blast
qed

theorem stop_on_none_stays_in_context_witness:
  "map_of [(''stop_on_none'', PBool False)] ''stop_on_none'' = Some (PBool False)
   \<and> Compose_call (Compose_init [get_stop_on_none] [(''stop_on_none'', PBool False)])
        (PInt 1) None
     = (Inr (PBool False),
        [(get_stop_on_none, PInt 1, Some (Dict [(''stop_on_none'', PBool False)]))])
   \<and> Compose_call (Compose_init [get_stop_on_none] [(''stop_on_none'', PBool False)])
        (PInt 1) (Some [(''unit'', PStr ''m'')])
     = (Inr (PBool False),
        [(get_stop_on_none, PInt 1,
          Some (MergeDict [[(''unit'', PStr ''m'')], [(''stop_on_none'', PBool False)]]))])"
  using stop_on_none_stays_in_context
    [where kwargs = "[(''stop_on_none'', PBool False)]" and b = "PBool False"
       and fs = "[get_stop_on_none]" and v = "PInt 1" and lc = None]
    stop_on_none_stays_in_context
    [where kwargs = "[(''stop_on_none'', PBool False)]" and b = "PBool False"
       and fs = "[get_stop_on_none]" and v = "PInt 1" and lc = "Some [(''unit'', PStr ''m'')]"]
  by (simp add: Compose_init_def Compose_call_def dict_get_def
      wrap_loader_context_def get_stop_on_none_def Let_def)

section \<open>Empty pipelines and the stages of MapCompose\<close>

text \<open>
  C9. \<^verbatim>\<open>Compose()\<close> with no functions returns its argument and invokes nothing.
  \<^verbatim>\<open>MapCompose()\<close> with no functions returns the sequence its argument is coerced
  to: the empty list for \<^verbatim>\<open>None\<close>, the one-element list for a scalar, the
  sequence itself otherwise; so it is not the identity on a scalar.
\<close>

theorem empty_pipelines:
  "Compose_call (Compose_init [] kwargs) v lc = (Inr v, [])
   \<and> MapCompose_call (MapCompose_init [] kwargs) v lc = (Inr (arg_to_iter v), [])
   \<and> arg_to_iter PNone = PList []
   \<and> (scalar v \<longrightarrow> arg_to_iter v = PList [v])
   \<and> (v \<noteq> PNone \<and> \<not> scalar v \<longrightarrow> arg_to_iter v = v)
   \<and> (scalar v \<longrightarrow> fst (MapCompose_call (MapCompose_init [] kwargs) v lc) \<noteq> Inr v)"
proof -
  have a: "Compose_call (Compose_init [] kwargs) v lc = (Inr v, [])"
    by (simp add: Compose_call_def Compose_init_def)
  have b: "MapCompose_call (MapCompose_init [] kwargs) v lc = (Inr (arg_to_iter v), [])"
    by (simp add: MapCompose_call_def MapCompose_init_def)
  have c: "scalar v \<longrightarrow> arg_to_iter v = PList [v]"
    by (cases v) simp_all
  have d: "v \<noteq> PNone \<and> \<not> scalar v \<longrightarrow> arg_to_iter v = v"
    by (cases v) simp_all
  have e: "scalar v \<longrightarrow> fst (MapCompose_call (MapCompose_init [] kwargs) v lc) \<noteq> Inr v"
    unfolding b by (cases v) simp_all
  from a b c d e show ?thesis by simp
qed

theorem empty_pipelines_witness:
  "Compose_call (Compose_init [] []) (PInt 5) None = (Inr (PInt 5), [])
   \<and> MapCompose_call (MapCompose_init [] []) (PInt 5) None = (Inr (PList [PInt 5]), [])
   \<and> MapCompose_call (MapCompose_init [] []) PNone None = (Inr (PList []), [])
   \<and> MapCompose_call (MapCompose_init [] []) (PTuple [PInt 5]) None = (Inr (PTuple [PInt 5]), [])"
  using empty_pipelines [of "[]" "PInt 5" None] empty_pipelines [of "[]" PNone None]
    empty_pipelines [of "[]" "PTuple [PInt 5]" None]
  by simp

lemma py_iter_coerce: "py_iter (arg_to_iter v) = Some (coerce v)"
  by (cases v) simp_all

lemma map_stage_flat_map:
  "map_stage w xs acc = (res, cs) \<Longrightarrow>
   res = (case flat_map w xs of Inl e \<Rightarrow> Inl e | Inr ys \<Rightarrow> Inr (acc @ ys))"
proof (induction xs arbitrary: acc res cs)
  case Nil
  then show ?case by simp
next
  case (Cons x xs)
  show ?case
  proof (cases "outcome (invocation_of w x)")
    case (Inl e)
    with Cons.prems have "res = Inl e" by (simp add: Let_def)
    with Inl show ?thesis by simp
  next
    case (Inr y)
    obtain r' cs' where run: "map_stage w xs (acc @ coerce y) = (r', cs')"
      by (cases "map_stage w xs (acc @ coerce y)")
    from Cons.prems Inr run have "res = r'"
      by (simp add: Let_def py_iter_coerce)
    with Cons.IH[OF run] Inr show ?thesis
      by (simp split: sum.splits)
  qed
qed

lemma map_stage_invocations:
  "map_stage w xs acc = (Inr ys, cs) \<Longrightarrow> cs = map (invocation_of w) xs"
proof (induction xs arbitrary: acc cs)
  case Nil
  then show ?case by simp
next
  case (Cons x xs)
  show ?case
  proof (cases "outcome (invocation_of w x)")
    case (Inl e)
    with Cons.prems show ?thesis by (simp add: Let_def)
  next
    case (Inr y)
    obtain r' cs' where run: "map_stage w xs (acc @ coerce y) = (r', cs')"
      by (cases "map_stage w xs (acc @ coerce y)")
    from Cons.prems Inr run have eq: "r' = Inr ys" "cs = invocation_of w x # cs'"
      by (simp_all add: Let_def py_iter_coerce)
    from Cons.IH[OF run[unfolded eq(1)]] eq(2) show ?thesis by simp
  qed
qed

lemma map_stages_flat_map:
  "ws \<noteq> [] \<Longrightarrow> py_iter vals = Some xs \<Longrightarrow> map_stages ws vals = (res, cs) \<Longrightarrow>
   res = (case flat_map_stages ws xs of Inl e \<Rightarrow> Inl e | Inr ys \<Rightarrow> Inr (PList ys))"
proof (induction ws arbitrary: vals xs res cs)
  case Nil
  then show ?case by simp
next
  case (Cons w ws)
  obtain r1 cs1 where st: "map_stage w xs [] = (r1, cs1)"
    by (cases "map_stage w xs []")
  note fm = map_stage_flat_map[OF st]
  show ?case
  proof (cases "flat_map w xs")
    case (Inl e)
    with fm have "r1 = Inl e" by simp
    with Cons.prems(2,3) st Inl show ?thesis by simp
  next
    case (Inr ys)
    with fm have r1: "r1 = Inr ys" by simp
    obtain r2 cs2 where run: "map_stages ws (PList ys) = (r2, cs2)"
      by (cases "map_stages ws (PList ys)")
    from Cons.prems(2,3) st r1 run have res: "res = r2" by simp
    show ?thesis
    proof (cases "ws = []")
      case True
      with run res Inr show ?thesis by simp
    next
      case False
      from Cons.IH[OF False _ run, of ys] res Inr show ?thesis by simp
    qed
  qed
qed

lemma map_stages_invocations:
  "py_iter vals = Some xs \<Longrightarrow> map_stages ws vals = (Inr r, cs) \<Longrightarrow>
   cs = stage_invocations ws xs"
proof (induction ws arbitrary: vals xs cs)
  case Nil
  then show ?case by simp
next
  case (Cons w ws)
  obtain r1 cs1 where st: "map_stage w xs [] = (r1, cs1)"
    by (cases "map_stage w xs []")
  show ?case
  proof (cases r1)
    case (Inl e)
    with Cons.prems st show ?thesis by simp
  next
    case (Inr ys)
    from map_stage_invocations[OF st[unfolded Inr]]
    have cs1: "cs1 = map (invocation_of w) xs" .
    from map_stage_flat_map[OF st] Inr have fm: "flat_map w xs = Inr ys"
      by (simp split: sum.splits)
    obtain r2 cs2 where run: "map_stages ws (PList ys) = (r2, cs2)"
      by (cases "map_stages ws (PList ys)")
    from Cons.prems st Inr run have eq: "r2 = Inr r" "cs = cs1 @ cs2" by simp_all
    from Cons.IH[OF _ run[unfolded eq(1)], of ys] have "cs2 = stage_invocations ws ys"
      by simp
    with eq(2) cs1 fm show ?thesis by simp
  qed
qed

text \<open>
  C4. \<^verbatim>\<open>MapCompose\<close> first coerces its argument to a sequence; with no functions
  that sequence is the result. Otherwise the result is the list the stages of the
  specification compute from the elements of that sequence: each stage applies its
  function to every element of the working sequence, coerces each result and
  concatenates the coerced results in element order; a call that returns has made the
  invocations of the stages, in their order. In particular \<^verbatim>\<open>MapCompose(expand)\<close>
  on \<^verbatim>\<open>[1, 2]\<close> returns the coerced \<^verbatim>\<open>expand(1)\<close> followed by the coerced
  \<^verbatim>\<open>expand(2)\<close>.
\<close>

theorem MapCompose_flatten_map:
  "py_iter (arg_to_iter v) = Some (coerce v)
   \<and> fst (MapCompose_call m v lc) =
       (if funcs m = [] then Inr (arg_to_iter v)
        else case flat_map_stages
                    (map (\<lambda>f. wrap_loader_context f
                                 (call_context lc (default_loader_context m))) (funcs m))
                    (coerce v) of
               Inl e \<Rightarrow> Inl e
             | Inr ys \<Rightarrow> Inr (PList ys))
   \<and> (fst (MapCompose_call m v lc) = Inr r \<longrightarrow>
        snd (MapCompose_call m v lc) =
          stage_invocations
            (map (\<lambda>f. wrap_loader_context f (call_context lc (default_loader_context m)))
               (funcs m))
            (coerce v))
   \<and> (body expand (PInt 1) (passed_context expand (Dict kw)) = Inr a
        \<and> body expand (PInt 2) (passed_context expand (Dict kw)) = Inr b \<longrightarrow>
        MapCompose_call (MapCompose_init [expand] kw) (PList [PInt 1, PInt 2]) None
          = (Inr (PList (coerce a @ coerce b)),
             [(expand, PInt 1, passed_context expand (Dict kw)),
              (expand, PInt 2, passed_context expand (Dict kw))]))"
proof -
  let ?ws = "map (\<lambda>f. wrap_loader_context f (call_context lc (default_loader_context m)))
               (funcs m)"
  have a: "py_iter (arg_to_iter v) = Some (coerce v)" by (rule py_iter_coerce)
  have b: "fst (MapCompose_call m v lc) =
       (if funcs m = [] then Inr (arg_to_iter v)
        else case flat_map_stages ?ws (coerce v) of
               Inl e \<Rightarrow> Inl e
             | Inr ys \<Rightarrow> Inr (PList ys))"
  proof (cases "funcs m = []")
    case True
    then show ?thesis by (simp add: MapCompose_call_def)
  next
    case False
    then have "?ws \<noteq> []" by simp
    from map_stages_flat_map[OF this a, of "fst (map_stages ?ws (arg_to_iter v))"
        "snd (map_stages ?ws (arg_to_iter v))"] False
    show ?thesis
      by (simp add: MapCompose_call_def Let_def)
  qed
  have c: "fst (MapCompose_call m v lc) = Inr r \<longrightarrow>
        snd (MapCompose_call m v lc) = stage_invocations ?ws (coerce v)"
    using map_stages_invocations[OF a, of ?ws r "snd (map_stages ?ws (arg_to_iter v))"]
    by (auto simp: MapCompose_call_def Let_def prod_eq_iff)
  have d: "body expand (PInt 1) (passed_context expand (Dict kw)) = Inr a
        \<and> body expand (PInt 2) (passed_context expand (Dict kw)) = Inr b \<longrightarrow>
        MapCompose_call (MapCompose_init [expand] kw) (PList [PInt 1, PInt 2]) None
          = (Inr (PList (coerce a @ coerce b)),
             [(expand, PInt 1, passed_context expand (Dict kw)),
              (expand, PInt 2, passed_context expand (Dict kw))])"
    by (simp add: MapCompose_call_def MapCompose_init_def Let_def
        invocation_of_wrap py_iter_coerce)
  from a b c d show ?thesis by blast
qed

theorem MapCompose_flatten_map_witness:
  "MapCompose_call (MapCompose_init [twice] []) (PList [PInt 1, PInt 2]) None
     = (Inr (PList [PInt 1, PInt 1, PInt 2, PInt 2]),
        [(twice, PInt 1, None), (twice, PInt 2, None)])
   \<and> flat_map_stages [Plain twice, Plain in_list] [PInt 1]
     = Inr [PInt 1, PInt 1]
   \<and> MapCompose_call (MapCompose_init [twice, in_list] []) (PInt 1) None
     = (Inr (PList [PInt 1, PInt 1]),
        [(twice, PInt 1, None), (in_list, PInt 1, None), (in_list, PInt 1, None)])"
  using MapCompose_flatten_map
    [where v = "PInt 1" and m = "MapCompose_init [twice, in_list] []" and lc = None
       and r = "PList [PInt 1, PInt 1]" and expand = twice and kw = "[]"
       and a = "PTuple [PInt 1, PInt 1]" and b = "PTuple [PInt 2, PInt 2]"]
  by (simp add: MapCompose_init_def MapCompose_call_def
      wrap_loader_context_def passed_context_def twice_def in_list_def Let_def)

section \<open>The functions are invoked with the context of the call\<close>

lemma map_stage_calls: "map_stage w xs acc = (res, cs) \<Longrightarrow> cs = stage_calls w xs"
proof (induction xs arbitrary: acc res cs)
  case Nil
  then show ?case by simp
next
  case (Cons x xs)
  show ?case
  proof (cases "outcome (invocation_of w x)")
    case (Inl e)
    with Cons.prems have "cs = [invocation_of w x]" by (simp add: Let_def)
    with Inl show ?thesis by simp
  next
    case (Inr y)
    obtain r' cs' where run: "map_stage w xs (acc @ coerce y) = (r', cs')"
      by (cases "map_stage w xs (acc @ coerce y)")
    from Cons.prems Inr run have "cs = invocation_of w x # cs'"
      by (simp add: Let_def py_iter_coerce)
    with Cons.IH[OF run] Inr show ?thesis by simp
  qed
qed

lemma compose_loop_every_function:
  "compose_loop stop (map (\<lambda>f. wrap_loader_context f ctx) fs) v = (Inr r, cs) \<Longrightarrow>
   r \<noteq> PNone \<or> \<not> truthy stop \<Longrightarrow> map fst cs = fs"
proof (induction fs arbitrary: v cs)
  case Nil
  then show ?case by simp
next
  case (Cons f fs)
  let ?c = "invocation_of (wrap_loader_context f ctx) v"
  from Cons.prems have go: "\<not> (v = PNone \<and> truthy stop)"
    by (auto split: if_splits)
  show ?case
  proof (cases "outcome ?c")
    case (Inl e)
    with go Cons.prems(1) show ?thesis by (auto simp: Let_def split: if_splits)
  next
    case (Inr v')
    obtain r' cs' where run:
      "compose_loop stop (map (\<lambda>f. wrap_loader_context f ctx) fs) v' = (r', cs')"
      by (cases "compose_loop stop (map (\<lambda>f. wrap_loader_context f ctx) fs) v'")
    from go Inr run Cons.prems(1) have eq: "r' = Inr r" "cs = ?c # cs'"
      by (auto simp: Let_def split: if_splits)
    from Cons.IH[OF run[unfolded eq(1)] Cons.prems(2)] show ?thesis
      unfolding eq(2) by (simp add: invocation_of_wrap)
  qed
qed

lemma Compose_call_step:
  assumes "funcs self = f # fs"
  shows "Compose_call self v lc =
     (if v = PNone \<and> truthy (stop_on_none self) then (Inr v, [])
      else case body f v (passed_context f (call_context lc (default_loader_context self))) of
             Inl e \<Rightarrow>
               (Inl e, [(f, v, passed_context f (call_context lc (default_loader_context self)))])
           | Inr v' \<Rightarrow>
               (case Compose_call (self\<lparr>funcs := fs\<rparr>) v' lc of
                  (r, cs) \<Rightarrow>
                    (r, (f, v, passed_context f (call_context lc (default_loader_context self)))
                        # cs)))"
  using assms by (simp add: Compose_call_def Let_def invocation_of_wrap split: sum.splits)

lemma MapCompose_call_step:
  assumes "funcs m = g # gs"
  shows "MapCompose_call m v lc =
     (let w = wrap_loader_context g (call_context lc (default_loader_context m)) in
      case flat_map w (coerce v) of
        Inl e \<Rightarrow> (Inl e, stage_calls w (coerce v))
      | Inr ys \<Rightarrow>
          (case MapCompose_call (m\<lparr>funcs := gs\<rparr>) (PList ys) lc of
             (r, cs) \<Rightarrow> (r, stage_calls w (coerce v) @ cs)))"
proof -
  let ?w = "wrap_loader_context g (call_context lc (default_loader_context m))"
  obtain r1 cs1 where st: "map_stage ?w (coerce v) [] = (r1, cs1)"
    by (cases "map_stage ?w (coerce v) []")
  from map_stage_calls[OF st] have cs1: "cs1 = stage_calls ?w (coerce v)" .
  from map_stage_flat_map[OF st]
  have r1: "r1 = (case flat_map ?w (coerce v) of Inl e \<Rightarrow> Inl e | Inr ys \<Rightarrow> Inr ys)"
    by (simp split: sum.splits)
  show ?thesis
    using assms st cs1 r1
    by (simp add: MapCompose_call_def Let_def py_iter_coerce split: sum.splits)
qed

text \<open>
  C6. In a call of \<^verbatim>\<open>Compose\<close> or \<^verbatim>\<open>MapCompose\<close> with a non-empty runtime
  context \<open>rc\<close>, every invocation is of a function of the pipeline; a function that
  declares \<^verbatim>\<open>loader_context\<close> is called with the merge of \<open>rc\<close> and the pipeline's
  default context, a function that does not is called with the value only; and in the
  merge an entry of \<open>rc\<close> overrides the default entry of the same key. The functions
  are invoked: \<^verbatim>\<open>Compose\<close> with the functions \<open>f # fs\<close>, unless it stops on
  \<^verbatim>\<open>None\<close>, invokes \<open>f\<close> on the value with that context argument and, when \<open>f\<close>
  returns, goes on as \<^verbatim>\<open>Compose\<close> with \<open>fs\<close> does on the result; a call that
  returns a value other than \<^verbatim>\<open>None\<close>, or that does not stop on \<^verbatim>\<open>None\<close>, has
  invoked every function in order. \<^verbatim>\<open>MapCompose\<close> with the functions \<open>g # gs\<close>
  invokes \<open>g\<close> with that context argument on the elements of the coerced value, up to
  the first that raises, and, when none does, goes on as \<^verbatim>\<open>MapCompose\<close> with
  \<open>gs\<close> does on the flattened results; a call that returns has made the invocations of
  every stage.
\<close>

theorem runtime_context_overrides:
  "rc \<noteq> [] \<longrightarrow>
     (\<forall>(f, a, c) \<in> set (snd (Compose_call self v (Some rc))).
         f \<in> set (funcs self)
         \<and> c = (if takes_context f then Some (MergeDict [rc, default_loader_context self])
                else None))
     \<and> (\<forall>(f, a, c) \<in> set (snd (MapCompose_call m v (Some rc))).
         f \<in> set (funcs m)
         \<and> c = (if takes_context f then Some (MergeDict [rc, default_loader_context m])
                else None))
     \<and> context_get (MergeDict [rc, d]) k
         = (case map_of rc k of Some x \<Rightarrow> Some x | None \<Rightarrow> map_of d k)
     \<and> passed_context f ctx = (if takes_context f then Some ctx else None)
     \<and> invocation_of (wrap_loader_context f ctx) v = (f, v, passed_context f ctx)
     \<and> (funcs self = f # fs \<longrightarrow>
          Compose_call self v (Some rc) =
            (if v = PNone \<and> truthy (stop_on_none self) then (Inr v, [])
             else case body f v (passed_context f (MergeDict [rc, default_loader_context self])) of
                    Inl e \<Rightarrow>
                      (Inl e,
                       [(f, v, passed_context f (MergeDict [rc, default_loader_context self]))])
                  | Inr v' \<Rightarrow>
                      (case Compose_call (self\<lparr>funcs := fs\<rparr>) v' (Some rc) of
                         (r, cs) \<Rightarrow>
                           (r, (f, v, passed_context f
                                        (MergeDict [rc, default_loader_context self])) # cs))))
     \<and> (Compose_call self v (Some rc) = (Inr r, cs)
          \<and> (r \<noteq> PNone \<or> \<not> truthy (stop_on_none self)) \<longrightarrow>
          map fst cs = funcs self)
     \<and> (funcs m = g # gs \<longrightarrow>
          MapCompose_call m v (Some rc) =
            (let w = wrap_loader_context g (MergeDict [rc, default_loader_context m]) in
             case flat_map w (coerce v) of
               Inl e \<Rightarrow> (Inl e, stage_calls w (coerce v))
             | Inr ys \<Rightarrow>
                 (case MapCompose_call (m\<lparr>funcs := gs\<rparr>) (PList ys) (Some rc) of
                    (r, cs) \<Rightarrow> (r, stage_calls w (coerce v) @ cs))))
     \<and> (fst (MapCompose_call m v (Some rc)) = Inr r' \<longrightarrow>
          snd (MapCompose_call m v (Some rc)) =
            stage_invocations
              (map (\<lambda>f. wrap_loader_context f (MergeDict [rc, default_loader_context m]))
                 (funcs m))
              (coerce v))"
proof
  assume rc: "rc \<noteq> []"
  have ctx: "call_context (Some rc) d' = MergeDict [rc, d']" for d'
    using rc by simp
  have a: "\<forall>(f, a, c) \<in> set (snd (Compose_call self v (Some rc))).
         f \<in> set (funcs self)
         \<and> c = (if takes_context f then Some (MergeDict [rc, default_loader_context self])
                else None)"
    using Compose_call_contexts[of self "Some rc" v] rc
    by (auto simp: list_all_iff called_with_def passed_context_def)
  have b: "\<forall>(f, a, c) \<in> set (snd (MapCompose_call m v (Some rc))).
         f \<in> set (funcs m)
         \<and> c = (if takes_context f then Some (MergeDict [rc, default_loader_context m])
                else None)"
    using MapCompose_call_contexts[of m "Some rc" v] rc
    by (auto simp: list_all_iff called_with_def passed_context_def)
  have c: "context_get (MergeDict [rc, d]) k
         = (case map_of rc k of Some x \<Rightarrow> Some x | None \<Rightarrow> map_of d k)"
    by (simp split: option.splits)
  have p: "passed_context f ctx = (if takes_context f then Some ctx else None)"
    by (simp add: passed_context_def)
  have i: "invocation_of (wrap_loader_context f ctx) v = (f, v, passed_context f ctx)"
    by (rule invocation_of_wrap)
  have s: "funcs self = f # fs \<longrightarrow>
          Compose_call self v (Some rc) =
            (if v = PNone \<and> truthy (stop_on_none self) then (Inr v, [])
             else case body f v (passed_context f (MergeDict [rc, default_loader_context self])) of
                    Inl e \<Rightarrow>
                      (Inl e,
                       [(f, v, passed_context f (MergeDict [rc, default_loader_context self]))])
                  | Inr v' \<Rightarrow>
                      (case Compose_call (self\<lparr>funcs := fs\<rparr>) v' (Some rc) of
                         (r, cs) \<Rightarrow>
                           (r, (f, v, passed_context f
                                        (MergeDict [rc, default_loader_context self])) # cs)))"
    using Compose_call_step[of self f fs v "Some rc"] unfolding ctx by blast
  have e: "Compose_call self v (Some rc) = (Inr r, cs)
          \<and> (r \<noteq> PNone \<or> \<not> truthy (stop_on_none self)) \<longrightarrow>
          map fst cs = funcs self"
    using compose_loop_every_function[of "stop_on_none self" _ "funcs self" v r cs]
    by (auto simp: Compose_call_def Let_def)
  have t: "funcs m = g # gs \<longrightarrow>
          MapCompose_call m v (Some rc) =
            (let w = wrap_loader_context g (MergeDict [rc, default_loader_context m]) in
             case flat_map w (coerce v) of
               Inl e \<Rightarrow> (Inl e, stage_calls w (coerce v))
             | Inr ys \<Rightarrow>
                 (case MapCompose_call (m\<lparr>funcs := gs\<rparr>) (PList ys) (Some rc) of
                    (r, cs) \<Rightarrow> (r, stage_calls w (coerce v) @ cs)))"
    using MapCompose_call_step[of m g gs v "Some rc"] unfolding ctx by blast
  have u: "fst (MapCompose_call m v (Some rc)) = Inr r' \<longrightarrow>
          snd (MapCompose_call m v (Some rc)) =
            stage_invocations
              (map (\<lambda>f. wrap_loader_context f (MergeDict [rc, default_loader_context m]))
                 (funcs m))
              (coerce v)"
    using map_stages_invocations[OF py_iter_coerce, of _ v r'
        "snd (MapCompose_call m v (Some rc))"] rc
    by (auto simp: MapCompose_call_def Let_def prod_eq_iff)
  show "(\<forall>(f, a, c) \<in> set (snd (Compose_call self v (Some rc))).
         f \<in> set (funcs self)
         \<and> c = (if takes_context f then Some (MergeDict [rc, default_loader_context self])
                else None))
     \<and> (\<forall>(f, a, c) \<in> set (snd (MapCompose_call m v (Some rc))).
         f \<in> set (funcs m)
         \<and> c = (if takes_context f then Some (MergeDict [rc, default_loader_context m])
                else None))
     \<and> context_get (MergeDict [rc, d]) k
         = (case map_of rc k of Some x \<Rightarrow> Some x | None \<Rightarrow> map_of d k)
     \<and> passed_context f ctx = (if takes_context f then Some ctx else None)
     \<and> invocation_of (wrap_loader_context f ctx) v = (f, v, passed_context f ctx)
     \<and> (funcs self = f # fs \<longrightarrow>
          Compose_call self v (Some rc) =
            (if v = PNone \<and> truthy (stop_on_none self) then (Inr v, [])
             else case body f v (passed_context f (MergeDict [rc, default_loader_context self])) of
                    Inl e \<Rightarrow>
                      (Inl e,
                       [(f, v, passed_context f (MergeDict [rc, default_loader_context self]))])
                  | Inr v' \<Rightarrow>
                      (case Compose_call (self\<lparr>funcs := fs\<rparr>) v' (Some rc) of
                         (r, cs) \<Rightarrow>
                           (r, (f, v, passed_context f
                                        (MergeDict [rc, default_loader_context self])) # cs))))
     \<and> (Compose_call self v (Some rc) = (Inr r, cs)
          \<and> (r \<noteq> PNone \<or> \<not> truthy (stop_on_none self)) \<longrightarrow>
          map fst cs = funcs self)
     \<and> (funcs m = g # gs \<longrightarrow>
          MapCompose_call m v (Some rc) =
            (let w = wrap_loader_context g (MergeDict [rc, default_loader_context m]) in
             case flat_map w (coerce v) of
               Inl e \<Rightarrow> (Inl e, stage_calls w (coerce v))
             | Inr ys \<Rightarrow>
                 (case MapCompose_call (m\<lparr>funcs := gs\<rparr>) (PList ys) (Some rc) of
                    (r, cs) \<Rightarrow> (r, stage_calls w (coerce v) @ cs))))
     \<and> (fst (MapCompose_call m v (Some rc)) = Inr r' \<longrightarrow>
          snd (MapCompose_call m v (Some rc)) =
            stage_invocations
              (map (\<lambda>f. wrap_loader_context f (MergeDict [rc, default_loader_context m]))
                 (funcs m))
              (coerce v))"
    by (intro conjI a b c p i s e t u)
qed

theorem runtime_context_overrides_witness:
  "[(''unit'', PStr ''m'')] \<noteq> ([] :: dict)
   \<and> funcs (Compose_init [get_unit, in_list] [(''unit'', PStr ''cm''), (''base'', PInt 10)])
       = get_unit # [in_list]
   \<and> Compose_call (Compose_init [get_unit, in_list] [(''unit'', PStr ''cm''), (''base'', PInt 10)])
       (PInt 1) (Some [(''unit'', PStr ''m'')])
     = (Inr (PList [PStr ''m'']),
        [(get_unit, PInt 1,
          Some (MergeDict [[(''unit'', PStr ''m'')],
                           [(''unit'', PStr ''cm''), (''base'', PInt 10)]])),
         (in_list, PStr ''m'', None)])
   \<and> map fst [(get_unit, PInt 1,
                 Some (MergeDict [[(''unit'', PStr ''m'')],
                                  [(''unit'', PStr ''cm''), (''base'', PInt 10)]])),
                (in_list, PStr ''m'', None :: pycontext option)]
       = funcs (Compose_init [get_unit, in_list] [(''unit'', PStr ''cm''), (''base'', PInt 10)])
   \<and> funcs (MapCompose_init [get_unit, twice] [(''unit'', PStr ''cm''), (''base'', PInt 10)])
       = get_unit # [twice]
   \<and> MapCompose_call
         (MapCompose_init [get_unit, twice] [(''unit'', PStr ''cm''), (''base'', PInt 10)])
         (PInt 1) (Some [(''unit'', PStr ''m'')])
     = (Inr (PList [PStr ''m'', PStr ''m'']),
        [(get_unit, PInt 1,
          Some (MergeDict [[(''unit'', PStr ''m'')],
                           [(''unit'', PStr ''cm''), (''base'', PInt 10)]])),
         (twice, PStr ''m'', None)])
   \<and> context_get (MergeDict [[(''unit'', PStr ''m'')],
                              [(''unit'', PStr ''cm''), (''base'', PInt 10)]]) ''unit''
       = Some (PStr ''m'')"
proof -
  let ?rc = "[(''unit'', PStr ''m'')] :: dict"
  let ?kw = "[(''unit'', PStr ''cm''), (''base'', PInt 10)] :: dict"
  let ?cs = "[(get_unit, PInt 1, Some (MergeDict [?rc, ?kw])),
              (in_list, PStr ''m'', None :: pycontext option)]"
  have rc: "?rc \<noteq> []" by simp
  have fn: "funcs (Compose_init [get_unit, in_list] ?kw) = get_unit # [in_list]"
    by (simp add: Compose_init_def)
  have gn: "funcs (MapCompose_init [get_unit, twice] ?kw) = get_unit # [twice]"
    by (simp add: MapCompose_init_def)
  have ev1: "Compose_call (Compose_init [get_unit, in_list] ?kw) (PInt 1) (Some ?rc)
      = (Inr (PList [PStr ''m'']), ?cs)"
    by (simp add: Compose_init_def Compose_call_def dict_get_def wrap_loader_context_def
        in_list_def get_unit_def Let_def)
  have ev2: "MapCompose_call (MapCompose_init [get_unit, twice] ?kw) (PInt 1) (Some ?rc)
      = (Inr (PList [PStr ''m'', PStr ''m'']),
         [(get_unit, PInt 1, Some (MergeDict [?rc, ?kw])), (twice, PStr ''m'', None)])"
    by (simp add: MapCompose_init_def MapCompose_call_def wrap_loader_context_def
        twice_def get_unit_def Let_def)
  note big = runtime_context_overrides
    [where rc = ?rc and self = "Compose_init [get_unit, in_list] ?kw"
       and m = "MapCompose_init [get_unit, twice] ?kw" and v = "PInt 1" and d = ?kw
       and k = "''unit''" and f = get_unit and fs = "[in_list]"
       and r = "PList [PStr ''m'']" and cs = ?cs
       and g = get_unit and gs = "[twice]" and r' = "PList [PStr ''m'', PStr ''m'']",
     THEN mp, OF rc]
  note c = big[THEN conjunct2, THEN conjunct2, THEN conjunct1]
  note e = big[THEN conjunct2, THEN conjunct2, THEN conjunct2, THEN conjunct2,
               THEN conjunct2, THEN conjunct2, THEN conjunct1]
  have nn: "PList [PStr ''m''] \<noteq> PNone" by simp
  have all: "map fst ?cs = funcs (Compose_init [get_unit, in_list] ?kw)"
    by (rule e[THEN mp, OF conjI[OF ev1 disjI1[OF nn]]])
  have get: "context_get (MergeDict [?rc, ?kw]) ''unit'' = Some (PStr ''m'')"
    unfolding c by simp
  show ?thesis
    by (intro conjI rc fn ev1 all gn ev2 get)
qed

end
